theory Spec2Isabelle
  imports Main "HOL-Library.Word" "HOL-Library.Signed_Division" "HOL-Library.Log_Nat"
    "HOL-Library.Multiset"
begin

section \<open>Values of type double\<close>

text \<open>
  The samples and the running statistics of \<^verbatim>\<open>DataDistMonitoring.h\<close> are C++
  \<^verbatim>\<open>double\<close>s. A double is either not-a-number, one of the two infinities, or a
  finite binary64 number, which is a rational. The sign of zero is not represented
  (\<^verbatim>\<open>+0.0\<close> and \<^verbatim>\<open>-0.0\<close> compare equal in C++).
\<close>

datatype double = NaN | NInf | Fin rat | PInf

text \<open>The C++ comparison \<^verbatim>\<open>a < b\<close> on doubles: false as soon as one side is NaN.\<close>

fun dlt :: "double \<Rightarrow> double \<Rightarrow> bool" where
  "dlt NaN _ = False"
| "dlt _ NaN = False"
| "dlt (Fin a) (Fin b) = (a < b)"
| "dlt NInf NInf = False"
| "dlt NInf _ = True"
| "dlt _ NInf = False"
| "dlt PInf _ = False"
| "dlt _ PInf = True"

text \<open>The C++ comparison \<^verbatim>\<open>a <= b\<close> on doubles.\<close>

fun dle :: "double \<Rightarrow> double \<Rightarrow> bool" where
  "dle NaN _ = False"
| "dle _ NaN = False"
| "dle (Fin a) (Fin b) = (a \<le> b)"
| "dle NInf _ = True"
| "dle PInf PInf = True"
| "dle PInf _ = False"
| "dle _ NInf = False"
| "dle _ PInf = True"

subsection \<open>Rounding to binary64\<close>

text \<open>
  \<open>ilog2 y\<close> is the binary exponent of a positive rational: the integer \<open>e\<close> with
  \<open>2 ^ e \<le> y < 2 ^ (e + 1)\<close>.
\<close>

definition ilog2 :: "rat \<Rightarrow> int" where
  "ilog2 y = (if 1 \<le> y then bitlen \<lfloor>y\<rfloor> - 1 else - bitlen (\<lceil>1 / y\<rceil> - 1))"

definition pow2 :: "int \<Rightarrow> rat" where
  "pow2 e = (if 0 \<le> e then 2 ^ nat e else 1 / 2 ^ nat (- e))"

text \<open>Rounding to the nearest integer, ties to the even one.\<close>

definition round_half_even :: "rat \<Rightarrow> int" where
  "round_half_even q =
     (let f = \<lfloor>q\<rfloor>; d = q - of_int f
      in if d < 1 / 2 then f else if 1 / 2 < d then f + 1 else if even f then f else f + 1)"

text \<open>
  The result of an arithmetic operation is its exact value rounded to the nearest
  binary64 number, ties to even (the default rounding mode): 53 significant bits, the
  exponent of the leading bit between -1022 and 1023, gradual underflow below, and an
  infinity when the rounded value reaches \<open>2 ^ 1024\<close>.
\<close>

definition round_to_double :: "rat \<Rightarrow> double" where
  "round_to_double x =
     (if x = 0 then Fin 0
      else let e = max (ilog2 \<bar>x\<bar>) (- 1022);
               m = round_half_even (x / pow2 (e - 52))
           in if 1023 < e \<or> (e = 1023 \<and> 2 ^ 53 \<le> \<bar>m\<bar>)
              then (if 0 < x then PInf else NInf)
              else Fin (of_int m * pow2 (e - 52)))"

text \<open>The sign of a double that is not NaN, and the infinity of a given sign.\<close>

fun dsgn :: "double \<Rightarrow> int" where
  "dsgn NaN = 0"
| "dsgn NInf = - 1"
| "dsgn PInf = 1"
| "dsgn (Fin a) = (if a < 0 then - 1 else if a = 0 then 0 else 1)"

definition inf_of_sign :: "int \<Rightarrow> double" where
  "inf_of_sign k = (if k < 0 then NInf else if k = 0 then NaN else PInf)"

text \<open>The C++ operators \<^verbatim>\<open>+\<close>, \<^verbatim>\<open>*\<close> and \<^verbatim>\<open>/\<close> on doubles.\<close>

fun dadd :: "double \<Rightarrow> double \<Rightarrow> double" where
  "dadd NaN _ = NaN"
| "dadd _ NaN = NaN"
| "dadd (Fin a) (Fin b) = round_to_double (a + b)"
| "dadd PInf NInf = NaN"
| "dadd NInf PInf = NaN"
| "dadd PInf _ = PInf"
| "dadd _ PInf = PInf"
| "dadd NInf _ = NInf"
| "dadd _ NInf = NInf"

fun dmul :: "double \<Rightarrow> double \<Rightarrow> double" where
  "dmul NaN _ = NaN"
| "dmul _ NaN = NaN"
| "dmul (Fin a) (Fin b) = round_to_double (a * b)"
| "dmul a b = inf_of_sign (dsgn a * dsgn b)"

text \<open>
  A zero divisor is taken as \<^verbatim>\<open>+0.0\<close>: the divisors of this program are the constant
  \<^verbatim>\<open>2000.0\<close> and a sample count, which is never a negative zero.
\<close>

fun ddiv :: "double \<Rightarrow> double \<Rightarrow> double" where
  "ddiv NaN _ = NaN"
| "ddiv _ NaN = NaN"
| "ddiv (Fin a) (Fin b) = (if b = 0 then inf_of_sign (dsgn (Fin a)) else round_to_double (a / b))"
| "ddiv (Fin a) _ = Fin 0"
| "ddiv a (Fin b) = inf_of_sign (dsgn a * (if b < 0 then - 1 else 1))"
| "ddiv _ _ = NaN"

text \<open>\<^verbatim>\<open>std::floor\<close> and \<^verbatim>\<open>std::round\<close> (halfway cases away from zero).\<close>

fun std_floor :: "double \<Rightarrow> double" where
  "std_floor (Fin a) = Fin (of_int \<lfloor>a\<rfloor>)"
| "std_floor d = d"

fun std_round :: "double \<Rightarrow> double" where
  "std_round (Fin a) = Fin (of_int (if 0 \<le> a then \<lfloor>a + 1 / 2\<rfloor> else - \<lfloor>- a + 1 / 2\<rfloor>))"
| "std_round d = d"

text \<open>
  \<^verbatim>\<open>std::min(a, b)\<close> is \<^verbatim>\<open>(b < a) ? b : a\<close> and \<^verbatim>\<open>std::max(a, b)\<close> is
  \<^verbatim>\<open>(a < b) ? b : a\<close>.
\<close>

definition std_min :: "double \<Rightarrow> double \<Rightarrow> double" where
  "std_min a b = (if dlt b a then b else a)"

definition std_max :: "double \<Rightarrow> double \<Rightarrow> double" where
  "std_max a b = (if dlt a b then b else a)"

text \<open>
  \<^verbatim>\<open>std::numeric_limits<double>::max()\<close> is the largest finite double,
  \<^verbatim>\<open>std::numeric_limits<double>::min()\<close> the smallest positive normal double, and
  \<^verbatim>\<open>std::numeric_limits<float>::epsilon()\<close> is \<open>2 ^ -23\<close>.
\<close>

definition numeric_limits_double_max :: rat where
  "numeric_limits_double_max = (2 ^ 53 - 1) * 2 ^ 971"

definition numeric_limits_double_min :: rat where
  "numeric_limits_double_min = 1 / 2 ^ 1022"

definition numeric_limits_float_epsilon :: rat where
  "numeric_limits_float_epsilon = 1 / 2 ^ 23"

subsection \<open>Conversions between unsigned and double\<close>

text \<open>
  Converting a double to \<^verbatim>\<open>unsigned\<close> truncates towards zero; the behaviour is
  undefined when the truncated value is not an \<^verbatim>\<open>unsigned\<close>. Dividing a
  \<^verbatim>\<open>std::chrono\<close> duration by a zero duration is undefined as well, and so is
  signed arithmetic whose result leaves the 64-bit range.
\<close>

datatype error = UndefinedConversion | DivisionByZero | SignedOverflow

text \<open>The result of a signed 64-bit operation whose exact value is \<open>k\<close>.\<close>

definition int64 :: "int \<Rightarrow> error + int" where
  "int64 k = (if - (2 ^ 63) \<le> k \<and> k < 2 ^ 63 then Inr k else Inl SignedOverflow)"

definition unsigned_of_double :: "double \<Rightarrow> error + 32 word" where
  "unsigned_of_double d =
     (case d of
        Fin a \<Rightarrow>
          (let k = (if 0 \<le> a then \<lfloor>a\<rfloor> else \<lceil>a\<rceil>)
           in if 0 \<le> k \<and> k < 2 ^ 32 then Inr (word_of_int k) else Inl UndefinedConversion)
      | _ \<Rightarrow> Inl UndefinedConversion)"

definition double_of_unsigned :: "32 word \<Rightarrow> double" where
  "double_of_unsigned w = round_to_double (of_nat (unat w))"

section \<open>The monitoring pipeline object\<close>

text \<open>
  A queued sample is the tuple \<^verbatim>\<open>(name, key, value)\<close> built by
  \<^verbatim>\<open>std::make_tuple(pName, pKey, pVal)\<close>.
\<close>

type_synonym sample = "string \<times> string \<times> double"

text \<open>
  The backend \<^verbatim>\<open>o2::monitoring::Monitoring\<close> is an external library object. Only
  the calls the header makes on it are recorded, in the order they are made.
\<close>

datatype monitoring_call =
    SetRunNumber "32 word"
  | AddGlobalTag string string

text \<open>
  The members of \<^verbatim>\<open>class DataDistMonitoring\<close> that the inline functions of the header
  read or write. \<^verbatim>\<open>mO2Monitoring\<close> is a \<^verbatim>\<open>unique_ptr\<close>: \<open>None\<close> is the null pointer.
\<close>

record DataDistMonitoring =
  mMetricsQueue :: "sample list"
  mRateMetricsQueue :: "sample list"
  mRunning :: bool
  mActive :: bool
  mO2Monitoring :: "monitoring_call list option"
  mMonitoringIntervalMs :: "32 word"
  mMonitoringIntervalStepUs :: "64 word"
  mLogMetric :: bool

text \<open>
  Modelled from the spec: \<^verbatim>\<open>ConcurrentFifo::push_capacity\<close> of \<^verbatim>\<open>ConcurrentQueue.h\<close>,
  which is not among the sources. Section 4.1 of the specification: when the queue has
  reached its capacity the incoming sample is dropped (drop-newest-on-full) and no error
  is surfaced to the caller; otherwise the sample is appended at the back of the FIFO.
\<close>

definition push_capacity :: "nat \<Rightarrow> 'a \<Rightarrow> 'a list \<Rightarrow> 'a list" where
  "push_capacity pCap x q = (if length q < pCap then q @ [x] else q)"

text \<open>\<^verbatim>\<open>DataDistMonitoring::push\<close> and \<^verbatim>\<open>DataDistMonitoring::push_rate\<close>.\<close>

definition push :: "string \<Rightarrow> string \<Rightarrow> double \<Rightarrow> DataDistMonitoring \<Rightarrow> DataDistMonitoring" where
  "push pName pKey pVal s =
     (if mLogMetric s \<or> mO2Monitoring s \<noteq> None
      then s\<lparr>mMetricsQueue := push_capacity 4096 (pName, pKey, pVal) (mMetricsQueue s)\<rparr>
      else s)"

definition push_rate :: "string \<Rightarrow> string \<Rightarrow> double \<Rightarrow> DataDistMonitoring \<Rightarrow> DataDistMonitoring" where
  "push_rate pName pKey pVal s =
     (if mLogMetric s \<or> mO2Monitoring s \<noteq> None
      then s\<lparr>mRateMetricsQueue := push_capacity 4096 (pName, pKey, pVal) (mRateMetricsQueue s)\<rparr>
      else s)"

text \<open>\<^verbatim>\<open>set_partition_id\<close>, \<^verbatim>\<open>set_run_number\<close>, \<^verbatim>\<open>set_active\<close>, \<^verbatim>\<open>set_log\<close>.\<close>

definition set_partition_id :: "string \<Rightarrow> DataDistMonitoring \<Rightarrow> DataDistMonitoring" where
  "set_partition_id pPartId s =
     (case mO2Monitoring s of
        None \<Rightarrow> s
      | Some calls \<Rightarrow> s\<lparr>mO2Monitoring := Some (calls @ [AddGlobalTag ''partition'' pPartId])\<rparr>)"

definition set_run_number :: "32 word \<Rightarrow> DataDistMonitoring \<Rightarrow> DataDistMonitoring" where
  "set_run_number pRunNum s =
     (case mO2Monitoring s of
        None \<Rightarrow> s
      | Some calls \<Rightarrow> s\<lparr>mO2Monitoring := Some (calls @ [SetRunNumber pRunNum])\<rparr>)"

definition set_active :: "bool \<Rightarrow> DataDistMonitoring \<Rightarrow> DataDistMonitoring" where
  "set_active pActive s = s\<lparr>mActive := pActive\<rparr>"

definition set_log :: "bool \<Rightarrow> DataDistMonitoring \<Rightarrow> DataDistMonitoring" where
  "set_log pLog s = s\<lparr>mLogMetric := pLog\<rparr>"

text \<open>
  \<^verbatim>\<open>DataDistMonitoring::set_interval\<close>. The quotient, its floor and the product by
  \<^verbatim>\<open>500U\<close> are computed in double; the cast to \<^verbatim>\<open>unsigned\<close>, the maximum with
  \<^verbatim>\<open>250U\<close> and the product by \<^verbatim>\<open>1000U\<close> are 32-bit unsigned arithmetic, and only the
  result is widened to the 64-bit member.
\<close>

definition set_interval :: "32 word \<Rightarrow> DataDistMonitoring \<Rightarrow> error + DataDistMonitoring" where
  "set_interval pIntMs s =
     (let s1 = s\<lparr>mMonitoringIntervalMs := pIntMs\<rparr>
      in case unsigned_of_double
                (dmul (double_of_unsigned 500)
                   (std_floor (ddiv (double_of_unsigned (mMonitoringIntervalMs s1)) (Fin 2000)))) of
           Inl e \<Rightarrow> Inl e
         | Inr k \<Rightarrow> Inr (s1\<lparr>mMonitoringIntervalStepUs := ucast (max 250 k * 1000)\<rparr>))"

text \<open>
  \<^verbatim>\<open>DataDistMonitoring::roundTimeNow\<close>. The argument is the count of microseconds since
  the epoch that \<^verbatim>\<open>time_point_cast<std::chrono::microseconds>\<close> leaves in \<^verbatim>\<open>pNowMs\<close>;
  the result is the count of microseconds of \<^verbatim>\<open>lNowRounded\<close>.

  \<^verbatim>\<open>pNowMs\<close> and \<^verbatim>\<open>lNowRounded\<close> are \<^verbatim>\<open>system_clock::time_point\<close>s, whose ticks are
  signed 64-bit counts of nanoseconds (libstdc++). Each operation on durations converts
  its operands to the common tick first, a count of microseconds to nanoseconds by a
  multiplication by 1000:
  \<^item> the assignment to \<^verbatim>\<open>pNowMs\<close> converts the microseconds of the cast to ticks;
  \<^item> the sum converts \<^verbatim>\<open>microseconds(mMonitoringIntervalStepUs - 1)\<close>, where the
    subtraction is unsigned 64-bit and the count is the member read as a signed value;
  \<^item> the quotient converts \<^verbatim>\<open>microseconds(mMonitoringIntervalStepUs)\<close> and truncates
    towards zero;
  \<^item> \<^verbatim>\<open>lNowSteps * microseconds(...)\<close> is a count of microseconds, converted to ticks
    by the constructor of the \<^verbatim>\<open>time_point\<close>.
  Every one of these is signed 64-bit arithmetic, undefined on overflow. The quotient itself
  cannot overflow: its divisor is a multiple of 1000.
\<close>

definition roundTimeNow :: "DataDistMonitoring \<Rightarrow> int \<Rightarrow> error + int" where
  "roundTimeNow s pNowUs =
     (case int64 (pNowUs * 1000) of
        Inl e \<Rightarrow> Inl e
      | Inr lNow \<Rightarrow>
     (case int64 (sint (mMonitoringIntervalStepUs s - 1) * 1000) of
        Inl e \<Rightarrow> Inl e
      | Inr lStepMinus1 \<Rightarrow>
     (case int64 (lNow + lStepMinus1) of
        Inl e \<Rightarrow> Inl e
      | Inr lSum \<Rightarrow>
     (case int64 (sint (mMonitoringIntervalStepUs s) * 1000) of
        Inl e \<Rightarrow> Inl e
      | Inr lStep \<Rightarrow>
          if lStep = 0 then Inl DivisionByZero
          else
     (case int64 ((lSum sdiv lStep) * sint (mMonitoringIntervalStepUs s)) of
        Inl e \<Rightarrow> Inl e
      | Inr lNowRounded \<Rightarrow>
     (case int64 (lNowRounded * 1000) of
        Inl e \<Rightarrow> Inl e
      | Inr _ \<Rightarrow> Inr lNowRounded))))))"

section \<open>The facade\<close>

text \<open>
  \<^verbatim>\<open>DataDistMonitor::mDataDistMon\<close> is a static \<^verbatim>\<open>unique_ptr<DataDistMonitoring>\<close>;
  the facade functions take it and return it, \<open>None\<close> being the null pointer.
\<close>

definition enable_datadist ::
  "32 word \<Rightarrow> string \<Rightarrow> DataDistMonitoring option \<Rightarrow> DataDistMonitoring option" where
  "enable_datadist pRunNum pPartId mDataDistMon =
     (case mDataDistMon of
        None \<Rightarrow> None
      | Some m \<Rightarrow>
          Some (set_active True (set_partition_id pPartId (set_run_number (max pRunNum 1) m))))"

text \<open>
  \<^verbatim>\<open>DataDistMonitor::set_interval\<close>. The parameter is a \<^verbatim>\<open>float\<close>; every float is a
  double, \<^verbatim>\<open>double(pInterval)\<close> is exact, and comparing floats is comparing their
  values. The result of \<^verbatim>\<open>std::round\<close> is converted to the \<^verbatim>\<open>unsigned\<close> parameter of
  \<^verbatim>\<open>DataDistMonitoring::set_interval\<close>.
\<close>

definition DataDistMonitor_set_interval ::
  "double \<Rightarrow> DataDistMonitoring option \<Rightarrow> error + DataDistMonitoring option" where
  "DataDistMonitor_set_interval pInterval mDataDistMon =
     (case mDataDistMon of
        None \<Rightarrow> Inr None
      | Some m \<Rightarrow>
          if dle pInterval (Fin numeric_limits_float_epsilon) then Inr (Some (set_active False m))
          else
            (case unsigned_of_double (std_round (dmul pInterval (Fin 1000))) of
               Inl e \<Rightarrow> Inl e
             | Inr pIntMs \<Rightarrow>
                 (case set_interval pIntMs m of Inl e \<Rightarrow> Inl e | Inr m' \<Rightarrow> Inr (Some m'))))"

text \<open>The macros \<^verbatim>\<open>DDMON\<close> and \<^verbatim>\<open>DDMON_RATE\<close>.\<close>

definition DDMON :: "string \<Rightarrow> string \<Rightarrow> double \<Rightarrow> DataDistMonitoring option \<Rightarrow> DataDistMonitoring option" where
  "DDMON name key val mDataDistMon =
     (case mDataDistMon of None \<Rightarrow> None | Some m \<Rightarrow> Some (push name key val m))"

definition DDMON_RATE :: "string \<Rightarrow> string \<Rightarrow> double \<Rightarrow> DataDistMonitoring option \<Rightarrow> DataDistMonitoring option" where
  "DDMON_RATE name key val mDataDistMon =
     (case mDataDistMon of None \<Rightarrow> None | Some m \<Rightarrow> Some (push_rate name key val m))"

section \<open>Producers\<close>

text \<open>
  A burst of producer calls with no drain in between: each element is one call of
  \<^verbatim>\<open>push\<close> or of \<^verbatim>\<open>push_rate\<close>.
\<close>

datatype producer_call = Push string string double | PushRate string string double

fun producer_step :: "producer_call \<Rightarrow> DataDistMonitoring \<Rightarrow> DataDistMonitoring" where
  "producer_step (Push n k v) s = push n k v s"
| "producer_step (PushRate n k v) s = push_rate n k v s"

fun burst :: "producer_call list \<Rightarrow> DataDistMonitoring \<Rightarrow> DataDistMonitoring" where
  "burst [] s = s"
| "burst (c # cs) s = burst cs (producer_step c s)"

text \<open>
  The samples that the calls of \<^verbatim>\<open>push\<close> in a burst carry, and those of the calls of
  \<^verbatim>\<open>push_rate\<close>, in the order of the calls.
\<close>

fun pushed :: "producer_call list \<Rightarrow> sample list" where
  "pushed [] = []"
| "pushed (Push n k v # cs) = (n, k, v) # pushed cs"
| "pushed (PushRate n k v # cs) = pushed cs"

fun pushed_rate :: "producer_call list \<Rightarrow> sample list" where
  "pushed_rate [] = []"
| "pushed_rate (Push n k v # cs) = pushed_rate cs"
| "pushed_rate (PushRate n k v # cs) = (n, k, v) # pushed_rate cs"

text \<open>
  A started pipeline with empty queues and the members as their initialisers in the header
  leave them; the logging flag and the backend are parameters.
\<close>

definition fresh :: "bool \<Rightarrow> monitoring_call list option \<Rightarrow> DataDistMonitoring" where
  "fresh pLog pBackend =
     \<lparr>mMetricsQueue = [], mRateMetricsQueue = [], mRunning = True, mActive = False,
      mO2Monitoring = pBackend, mMonitoringIntervalMs = 1000,
      mMonitoringIntervalStepUs = 500000, mLogMetric = pLog\<rparr>"

section \<open>Rate statistics\<close>

text \<open>\<^verbatim>\<open>DataDistRateMetric::RateVals\<close> and its default member initialisers.\<close>

record RateVals =
  mMin :: double
  mMax :: double
  mMeanAcc :: double
  mCount :: double

definition RateVals_init :: RateVals where
  "RateVals_init =
     \<lparr>mMin = Fin numeric_limits_double_max, mMax = Fin numeric_limits_double_min,
      mMeanAcc = Fin 0, mCount = Fin 0\<rparr>"

text \<open>
  Modelled from the spec: the fold of one rate sample into the record of its key, done by
  \<^verbatim>\<open>DataDistMonitoring::RateMetricCollectionThread\<close>, whose body is not among the
  sources. Section 4.3 of the specification: for each sample with value \<open>v\<close>,
  \<open>min = minimum(min, v)\<close>; \<open>max = maximum(max, v)\<close>; \<open>meanAccumulator += v\<close>;
  \<open>count += 1\<close>. The values are float64 (section 3).
\<close>

definition fold_sample :: "double \<Rightarrow> RateVals \<Rightarrow> RateVals" where
  "fold_sample v r =
     \<lparr>mMin = std_min (mMin r) v, mMax = std_max (mMax r) v,
      mMeanAcc = dadd (mMeanAcc r) v, mCount = dadd (mCount r) (Fin 1)\<rparr>"

text \<open>The samples of one key, folded in the order they are drained.\<close>

definition fold_samples :: "double list \<Rightarrow> RateVals \<Rightarrow> RateVals" where
  "fold_samples vs r = fold fold_sample vs r"

text \<open>
  Modelled from the spec: the mean reported at a flush, computed in code that is not among
  the sources. Section 4.3 of the specification: the exposed mean is
  \<open>meanAccumulator / count\<close>, and "no data" is reported if \<open>count == 0\<close>.
\<close>

definition mean :: "RateVals \<Rightarrow> double option" where
  "mean r = (if mCount r = Fin 0 then None else Some (ddiv (mMeanAcc r) (mCount r)))"

text \<open>
  The invariant of section 3 of the specification on a record: \<open>min \<le> mean \<le> max\<close>,
  compared as doubles.
\<close>

definition mean_within :: "RateVals \<Rightarrow> bool" where
  "mean_within r =
     (case mean r of None \<Rightarrow> False | Some a \<Rightarrow> dle (mMin r) a \<and> dle a (mMax r))"

text \<open>
  The window index of section 4.3 of the specification, \<open>ceilDiv(t_micros, S_micros)\<close>:
  the least integer that is not below the quotient.
\<close>

definition ceilDiv :: "int \<Rightarrow> int \<Rightarrow> int" where
  "ceilDiv t S = \<lceil>(of_int t :: rat) / of_int S\<rceil>"

section \<open>Queue lemmas\<close>

lemma length_push_capacity:
  "length (push_capacity pCap x q) = (if length q < pCap then Suc (length q) else length q)"
  by (simp add: push_capacity_def)

lemma push_capacity_bound:
  "length q \<le> pCap \<Longrightarrow> length (push_capacity pCap x q) \<le> pCap"
  by (simp add: push_capacity_def)

lemma producer_step_bound:
  assumes "length (mMetricsQueue s) \<le> 4096" and "length (mRateMetricsQueue s) \<le> 4096"
  shows "length (mMetricsQueue (producer_step c s)) \<le> 4096
       \<and> length (mRateMetricsQueue (producer_step c s)) \<le> 4096"
  using assms by (cases c) (simp_all add: push_def push_rate_def push_capacity_bound)

lemma burst_bound:
  "length (mMetricsQueue s) \<le> 4096 \<Longrightarrow> length (mRateMetricsQueue s) \<le> 4096 \<Longrightarrow>
   length (mMetricsQueue (burst cs s)) \<le> 4096 \<and> length (mRateMetricsQueue (burst cs s)) \<le> 4096"
proof (induction cs arbitrary: s)
  case Nil
  then show ?case by simp
next
  case (Cons c cs)
  from producer_step_bound [OF Cons.prems, of c] Cons.IH [of "producer_step c s"]
  show ?case by simp
qed

lemma burst_append: "burst (cs @ ds) s = burst ds (burst cs s)"
  by (induction cs arbitrary: s) simp_all

lemma burst_replicate_push:
  assumes "mLogMetric s \<or> mO2Monitoring s \<noteq> None" and "length (mMetricsQueue s) \<le> 4096"
  shows "mLogMetric (burst (replicate n (Push a k v)) s) = mLogMetric s
       \<and> mO2Monitoring (burst (replicate n (Push a k v)) s) = mO2Monitoring s
       \<and> mRateMetricsQueue (burst (replicate n (Push a k v)) s) = mRateMetricsQueue s
       \<and> length (mMetricsQueue (burst (replicate n (Push a k v)) s))
           = min 4096 (length (mMetricsQueue s) + n)"
  using assms
proof (induction n arbitrary: s)
  case 0
  then show ?case by simp
next
  case (Suc n)
  let ?s = "push a k v s"
  have flags: "mLogMetric ?s = mLogMetric s" "mO2Monitoring ?s = mO2Monitoring s"
    "mRateMetricsQueue ?s = mRateMetricsQueue s"
    by (simp_all add: push_def)
  have len: "length (mMetricsQueue ?s)
      = (if length (mMetricsQueue s) < 4096 then Suc (length (mMetricsQueue s))
         else length (mMetricsQueue s))"
    using Suc.prems by (simp add: push_def length_push_capacity)
  have en: "mLogMetric ?s \<or> mO2Monitoring ?s \<noteq> None"
    using Suc.prems flags by simp
  have le: "length (mMetricsQueue ?s) \<le> 4096"
    using Suc.prems(2) len by (simp split: if_splits)
  from Suc.IH [OF en le] flags len Suc.prems(2) show ?case
    by (simp split: if_splits)
qed

section \<open>Rounding lemmas\<close>

lemma round_half_even_le: 
  assumes "q \<le> of_int K" shows "round_half_even q \<le> K"
proof -
  have f: "\<lfloor>q\<rfloor> \<le> K" using assms by (simp add: floor_le_iff)
  show ?thesis
  proof (cases "\<lfloor>q\<rfloor> = K")
    case True
    then have "q - of_int \<lfloor>q\<rfloor> \<le> 0" using assms by simp
    then show ?thesis using True by (simp add: round_half_even_def Let_def)
  next
    case False
    with f have "\<lfloor>q\<rfloor> + 1 \<le> K" by simp
    then show ?thesis using f by (simp add: round_half_even_def Let_def)
  qed
qed

lemma round_half_even_ge:
  assumes "of_int K \<le> q" shows "K \<le> round_half_even q"
proof -
  have "K \<le> \<lfloor>q\<rfloor>" using assms by (simp add: le_floor_iff)
  then show ?thesis by (simp add: round_half_even_def Let_def)
qed

lemma ilog2_less:
  assumes "0 < y" and "y < 2 ^ n" and "0 < n"
  shows "ilog2 y < int n"
proof (cases "1 \<le> y")
  case True
  have "\<lfloor>y\<rfloor> < 2 ^ n" using assms(2) by (simp add: floor_less_iff)
  then have "bitlen \<lfloor>y\<rfloor> \<le> int n"
    by (simp add: bitlen_le_iff_power)
  then show ?thesis using True by (simp add: ilog2_def)
next
  case False
  have "0 \<le> bitlen (\<lceil>1 / y\<rceil> - 1)" by (rule bitlen_nonneg)
  then show ?thesis using False assms(3) by (simp add: ilog2_def)
qed

lemma round_to_double_grid:
  assumes pos: "0 < x" and less: "x < 2 ^ (53 - j)" and j: "j \<le> 52"
  shows "\<exists>y. round_to_double x = Fin y
           \<and> (\<forall>N. x \<le> of_int N / 2 ^ j \<longrightarrow> y \<le> of_int N / 2 ^ j)
           \<and> (\<forall>N. of_int N / 2 ^ j \<le> x \<longrightarrow> of_int N / 2 ^ j \<le> y)"
proof -
  define e where "e = max (ilog2 \<bar>x\<bar>) (- 1022)"
  define d where "d = nat (52 - e)"
  define m where "m = round_half_even (x * 2 ^ d)"
  have "ilog2 x < int (53 - j)" using pos less j by (intro ilog2_less) simp_all
  then have e_le: "e \<le> 52 - int j" using pos j by (simp add: e_def)
  then have dj: "j \<le> d" by (simp add: d_def)
  have p2: "pow2 (e - 52) = 1 / 2 ^ d"
    using e_le by (cases "e = 52") (simp_all add: pow2_def d_def)
  have "\<not> 1023 < e" and "e \<noteq> 1023" using e_le by simp_all
  then have rd: "round_to_double x = Fin (of_int m / 2 ^ d)"
    using pos unfolding round_to_double_def e_def [symmetric]
    by (simp add: p2 m_def Let_def)
  have split: "(2::rat) ^ d = 2 ^ j * 2 ^ (d - j)"
    using dj by (simp flip: power_add)
  have up: "(of_int m :: rat) / 2 ^ d \<le> of_int N / 2 ^ j" if "x \<le> of_int N / 2 ^ j" for N
  proof -
    have "x * 2 ^ d \<le> of_int N / 2 ^ j * 2 ^ d"
      using that by (rule mult_right_mono) simp
    also have "\<dots> = of_int (N * 2 ^ (d - j))" by (simp add: split)
    finally have "m \<le> N * 2 ^ (d - j)" unfolding m_def by (rule round_half_even_le)
    then have "(of_int m :: rat) \<le> of_int (N * 2 ^ (d - j))" by (simp only: of_int_le_iff)
    then have "(of_int m :: rat) / 2 ^ d \<le> of_int (N * 2 ^ (d - j)) / 2 ^ d"
      by (rule divide_right_mono) simp
    also have "\<dots> = of_int N / 2 ^ j" by (simp add: split)
    finally show ?thesis .
  qed
  have low: "(of_int N :: rat) / 2 ^ j \<le> of_int m / 2 ^ d" if "of_int N / 2 ^ j \<le> x" for N
  proof -
    have "of_int N / 2 ^ j * 2 ^ d \<le> x * 2 ^ d"
      using that by (rule mult_right_mono) simp
    moreover have "of_int N / 2 ^ j * 2 ^ d = (of_int (N * 2 ^ (d - j)) :: rat)" by (simp add: split)
    ultimately have "of_int (N * 2 ^ (d - j)) \<le> x * 2 ^ d" by simp
    then have "N * 2 ^ (d - j) \<le> m" unfolding m_def by (rule round_half_even_ge)
    then have "(of_int (N * 2 ^ (d - j)) :: rat) \<le> of_int m" by (simp only: of_int_le_iff)
    then have "(of_int (N * 2 ^ (d - j)) :: rat) / 2 ^ d \<le> of_int m / 2 ^ d"
      by (rule divide_right_mono) simp
    moreover have "of_int (N * 2 ^ (d - j)) / 2 ^ d = (of_int N :: rat) / 2 ^ j" by (simp add: split)
    ultimately show ?thesis by simp
  qed
  from rd up low show ?thesis by blast
qed

lemma round_to_double_int:
  assumes "0 \<le> k" and "k < 2 ^ 53"
  shows "round_to_double (of_int k) = Fin (of_int k)"
proof (cases "k = 0")
  case True
  then show ?thesis by (simp add: round_to_double_def)
next
  case False
  have "(of_int k :: rat) < of_int (2 ^ 53)" using assms(2) by (simp only: of_int_less_iff)
  then have "(of_int k :: rat) < 2 ^ (53 - 0)" by simp
  moreover have "(0::rat) < of_int k" using assms(1) False by simp
  ultimately obtain y where y: "round_to_double (of_int k) = Fin y"
    "\<forall>N. (of_int k :: rat) \<le> of_int N / 2 ^ 0 \<longrightarrow> y \<le> of_int N / 2 ^ 0"
    "\<forall>N. of_int N / 2 ^ 0 \<le> (of_int k :: rat) \<longrightarrow> of_int N / 2 ^ 0 \<le> y"
    using round_to_double_grid [of "of_int k" 0] by auto
  from y(2) [rule_format, of k] y(3) [rule_format, of k] have "y = of_int k" by simp
  with y(1) show ?thesis by simp
qed

lemma round_to_double_nat:
  assumes "n < 2 ^ 53" shows "round_to_double (of_nat n) = Fin (of_nat n)"
proof -
  have "int n < int (2 ^ 53)" using assms by (simp only: of_nat_less_iff)
  then have "int n < 2 ^ 53" by simp
  then show ?thesis using round_to_double_int [of "int n"] by simp
qed

lemma double_of_unsigned_eq: "double_of_unsigned w = Fin (of_nat (unat w))"
proof -
  have "unat w < 2 ^ 32" using unsigned_less [of w, where 'a = nat] by simp
  then have "unat w < 2 ^ 53" by (rule less_trans) simp
  then have "round_to_double (of_nat (unat w)) = Fin (of_nat (unat w))"
    by (rule round_to_double_nat)
  then show ?thesis by (simp only: double_of_unsigned_def)
qed

lemma quotient_2000:
  assumes "n < 2 ^ 32"
  shows "\<exists>y. round_to_double (of_nat n / 2000) = Fin y \<and> \<lfloor>y\<rfloor> = int (n div 2000)"
proof (cases "n = 0")
  case True
  then show ?thesis by (simp add: round_to_double_def)
next
  case False
  define k where "k = int (n div 2000)"
  define r where "r = int (n mod 2000)"
  define x :: rat where "x = of_nat n / 2000"
  have n: "int n = 2000 * k + r" by (simp add: k_def r_def zdiv_int zmod_int)
  have r: "r \<le> 1999" "0 \<le> r" by (simp_all add: r_def)
  have "(of_nat n :: rat) = of_int (int n)" by simp
  also have "\<dots> = 2000 * of_int k + of_int r" by (simp only: n)
  finally have xk: "x = of_int k + of_int r / 2000" by (simp add: x_def)
  have pos: "0 < x" using False by (simp add: x_def)
  have "(of_nat n :: rat) < of_nat (2 ^ 32)" using assms by (simp only: of_nat_less_iff)
  then have "x < 2 ^ 32" by (simp add: x_def)
  then have less: "x < 2 ^ (53 - 11)" by (rule less_trans) simp
  obtain y where y: "round_to_double x = Fin y"
    "\<forall>N. x \<le> of_int N / 2 ^ 11 \<longrightarrow> y \<le> of_int N / 2 ^ 11"
    "\<forall>N. of_int N / 2 ^ 11 \<le> x \<longrightarrow> of_int N / 2 ^ 11 \<le> y"
    using round_to_double_grid [OF pos less] by auto
  have r1: "(of_int r :: rat) \<le> 1999" "(0 :: rat) \<le> of_int r" using r by simp_all
  have lo: "of_int (k * 2048) / 2 ^ 11 \<le> x" using r1 by (simp add: xk)
  have hi: "x \<le> of_int ((k + 1) * 2048 - 1) / 2 ^ 11" using r1 by (simp add: xk field_simps)
  from y(3) [rule_format, OF lo] have "of_int k \<le> y" by simp
  moreover from y(2) [rule_format, OF hi] have "y < of_int k + 1" by (simp add: field_simps)
  ultimately have "\<lfloor>y\<rfloor> = k" by (simp add: floor_unique)
  with y(1) show ?thesis by (auto simp: x_def k_def)
qed

lemma step_expression:
  "unsigned_of_double
     (dmul (double_of_unsigned 500) (std_floor (ddiv (double_of_unsigned w) (Fin 2000))))
   = Inr (500 * (w div 2000))"
proof -
  define k where "k = unat w div 2000"
  have w: "unat w < 2 ^ 32" using unsigned_less [of w, where 'a = nat] by simp
  then have k: "k < 2147484" by (simp add: k_def)
  obtain y where y: "round_to_double (of_nat (unat w) / 2000) = Fin y" "\<lfloor>y\<rfloor> = int k"
    using quotient_2000 [OF w] by (auto simp: k_def)
  have q: "std_floor (ddiv (double_of_unsigned w) (Fin 2000)) = Fin (of_nat k)"
    using y by (simp add: double_of_unsigned_eq)
  have "500 * k < 2 ^ 53" using k by simp
  then have "round_to_double (of_nat (500 * k)) = Fin (of_nat (500 * k))"
    by (rule round_to_double_nat)
  then have p: "dmul (double_of_unsigned 500) (Fin (of_nat k)) = Fin (of_nat (500 * k))"
    by (simp add: double_of_unsigned_eq)
  have "word_of_nat (500 * k) = 500 * (w div 2000)"
    by (simp add: k_def word_arith_nat_div)
  moreover have "int (500 * k) < 2 ^ 32" using k by simp
  ultimately have "unsigned_of_double (Fin (of_nat (500 * k))) = Inr (500 * (w div 2000))"
    by (simp add: unsigned_of_double_def Let_def del: of_nat_mult)
  with q p show ?thesis by simp
qed

lemma set_interval_eq:
  "set_interval pIntMs s =
     Inr (s\<lparr>mMonitoringIntervalMs := pIntMs,
            mMonitoringIntervalStepUs := ucast (max 250 (500 * (pIntMs div 2000)) * 1000)\<rparr>)"
  by (simp add: set_interval_def step_expression)

section \<open>Window arithmetic\<close>

lemma sint_step_pred:
  assumes "0 < sint (w :: 64 word)" shows "sint (w - 1) = sint w - 1"
proof -
  have "w - 1 = word_of_int (sint w - 1)" by simp
  then have "sint (w - 1) = signed_take_bit 63 (sint w - 1)"
    by (simp only: sint_sbintrunc') simp
  moreover have "sint w < 2 ^ 63" using sint_lt [of w] by simp
  ultimately show ?thesis using assms
    by (simp add: signed_take_bit_int_eq_self)
qed

lemma sdiv_nonneg: "0 \<le> a \<Longrightarrow> 0 < b \<Longrightarrow> (a :: int) sdiv b = a div b"
  by (simp add: signed_divide_int_def sgn_if)

lemma sdiv_neg: "a < 0 \<Longrightarrow> 0 < b \<Longrightarrow> (a :: int) sdiv b = - ((- a) div b)"
  by (simp add: signed_divide_int_def sgn_if)

lemma round_up_ge:
  assumes "0 < S" shows "(t :: int) \<le> ((t + (S - 1)) sdiv S) * S"
proof (cases "0 \<le> t + (S - 1)")
  case True
  have "(t + (S - 1)) mod S < S" using assms by simp
  moreover have "(t + (S - 1)) div S * S + (t + (S - 1)) mod S = t + (S - 1)" by simp
  ultimately have "t \<le> (t + (S - 1)) div S * S" by linarith
  then show ?thesis using True assms by (simp add: sdiv_nonneg)
next
  case False
  then have neg: "t + (S - 1) < 0" by simp
  have "0 \<le> (- (t + (S - 1))) mod S" using assms by simp
  moreover have "(- (t + (S - 1))) div S * S + (- (t + (S - 1))) mod S = - (t + (S - 1))"
    by simp
  ultimately have "t + (S - 1) \<le> - ((- (t + (S - 1))) div S) * S" by linarith
  then have "t \<le> - ((- (t + (S - 1))) div S) * S" using assms by linarith
  then show ?thesis using neg assms by (simp add: sdiv_neg)
qed

lemma neg_div_ceil:
  assumes "0 < (S::int)" shows "- ((- t) div S) = (t + (S - 1)) div S"
proof (cases "t mod S = 0")
  case True
  then obtain q where q: "t = S * q" by auto
  have "(S * q + (S - 1)) div S = q"
    using assms by (intro int_div_pos_eq [where r = "S - 1"]) simp_all
  then show ?thesis using assms q by (simp add: zdiv_zminus1_eq_if)
next
  case False
  have "0 \<le> t mod S" and r2: "t mod S < S" using assms by simp_all
  with False have r: "0 < t mod S" "t mod S < S" by linarith+
  have "(t + (S - 1)) div S = t div S + 1"
  proof (rule int_div_pos_eq [where r = "t mod S - 1"])
    show "t + (S - 1) = S * (t div S + 1) + (t mod S - 1)"
      by (simp add: algebra_simps)
    show "0 \<le> t mod S - 1" using r by simp
    show "t mod S - 1 < S" using r by simp
  qed
  then show ?thesis using assms False by (simp add: zdiv_zminus1_eq_if)
qed

lemma ceilDiv_eq: assumes "0 < S" shows "ceilDiv t S = (t + (S - 1)) div S"
proof -
  have "ceilDiv t S = - ((- t) div S)"
    by (simp add: ceilDiv_def ceiling_divide_eq_div)
  then show ?thesis using assms by (simp only: neg_div_ceil)
qed

lemma one_le_word: "(1 \<le> (r :: 32 word)) = (r \<noteq> 0)"
  using word_le_sub1 by auto

lemma max_one_word: "max (r :: 32 word) 1 = (if r = 0 then 1 else r)"
proof (cases "r = 0")
  case True
  then show ?thesis by simp
next
  case False
  then have "1 \<le> r" by (simp add: one_le_word)
  then show ?thesis using False by (simp add: max_absorb1)
qed

lemma unat_step_in_range:
  assumes "unat (pIntMs :: 32 word) < 17180000"
  shows "unat (max 250 (500 * (pIntMs div 2000)) * 1000 :: 32 word)
           = max 250 (500 * (unat pIntMs div 2000)) * 1000"
proof -
  have q: "unat (pIntMs div 2000) = unat pIntMs div 2000" by (simp add: unat_div)
  have "unat pIntMs div 2000 < 8590" using assms by simp
  then have small: "500 * (unat pIntMs div 2000) < 4295000" by simp
  then have m: "unat (500 * (pIntMs div 2000)) = 500 * (unat pIntMs div 2000)"
    by (simp add: unat_word_ariths q)
  have mx: "unat (max 250 (500 * (pIntMs div 2000))) = max 250 (500 * (unat pIntMs div 2000))"
    by (simp add: max_def word_le_nat_alt m)
  have "max 250 (500 * (unat pIntMs div 2000)) * 1000 < 2 ^ 32" using small by simp
  then show ?thesis by (simp add: unat_word_ariths mx)
qed


section \<open>Rate statistics lemmas\<close>

lemma std_min_Fin: "std_min (Fin m) (Fin a) = Fin (min m a)"
  by (simp add: std_min_def min_def)

lemma std_max_Fin: "std_max (Fin m) (Fin a) = Fin (max m a)"
  by (simp add: std_max_def max_def)



lemma mMin_fold_samples: "mMin (fold_samples vs r) = fold (\<lambda>v m. std_min m v) vs (mMin r)"
  unfolding fold_samples_def
  by (induction vs arbitrary: r) (simp_all add: fold_sample_def)

lemma mMax_fold_samples: "mMax (fold_samples vs r) = fold (\<lambda>v m. std_max m v) vs (mMax r)"
  unfolding fold_samples_def
  by (induction vs arbitrary: r) (simp_all add: fold_sample_def)

lemma mMeanAcc_fold_samples:
  "mMeanAcc (fold_samples vs r) = fold (\<lambda>v a. dadd a v) vs (mMeanAcc r)"
  unfolding fold_samples_def
  by (induction vs arbitrary: r) (simp_all add: fold_sample_def)

lemma mCount_fold_samples:
  "mCount (fold_samples vs r) = fold (\<lambda>v c. dadd c (Fin 1)) vs (mCount r)"
  unfolding fold_samples_def
  by (induction vs arbitrary: r) (simp_all add: fold_sample_def)




lemma fold_min_Fin:
  "fold (\<lambda>v m. std_min m v) (map Fin as) (Fin m) = Fin (fold (\<lambda>a m. min m a) as m)"
  by (induction as arbitrary: m) (simp_all add: std_min_Fin)

lemma fold_max_Fin:
  "fold (\<lambda>v m. std_max m v) (map Fin as) (Fin m) = Fin (fold (\<lambda>a m. max m a) as m)"
  by (induction as arbitrary: m) (simp_all add: std_max_Fin)

lemma fold_min_le: "fold (\<lambda>a m. min m a) as m \<le> (m :: rat)"
proof (induction as arbitrary: m)
  case Nil
  then show ?case by simp
next
  case (Cons b as)
  have "fold (\<lambda>a m. min m a) as (min m b) \<le> min m b" by (rule Cons.IH)
  also have "\<dots> \<le> m" by simp
  finally show ?case by simp
qed

lemma fold_min_le_elem: "a \<in> set as \<Longrightarrow> fold (\<lambda>a m. min m a) as m \<le> (a :: rat)"
proof (induction as arbitrary: m)
  case Nil
  then show ?case by simp
next
  case (Cons b as)
  show ?case
  proof (cases "a = b")
    case True
    have "fold (\<lambda>a m. min m a) as (min m b) \<le> min m b" by (rule fold_min_le)
    then show ?thesis using True by simp
  next
    case False
    with Cons.prems have "a \<in> set as" by simp
    then show ?thesis using Cons.IH by simp
  qed
qed

lemma fold_max_ge: "(m :: rat) \<le> fold (\<lambda>a m. max m a) as m"
proof (induction as arbitrary: m)
  case Nil
  then show ?case by simp
next
  case (Cons b as)
  have "m \<le> max m b" by simp
  also have "\<dots> \<le> fold (\<lambda>a m. max m a) as (max m b)" by (rule Cons.IH)
  finally show ?case by simp
qed

lemma fold_max_ge_elem: "a \<in> set as \<Longrightarrow> (a :: rat) \<le> fold (\<lambda>a m. max m a) as m"
proof (induction as arbitrary: m)
  case Nil
  then show ?case by simp
next
  case (Cons b as)
  show ?case
  proof (cases "a = b")
    case True
    have "b \<le> max m b" by simp
    also have "\<dots> \<le> fold (\<lambda>a m. max m a) as (max m b)" by (rule fold_max_ge)
    finally show ?thesis using True by simp
  next
    case False
    with Cons.prems have "a \<in> set as" by simp
    then show ?thesis using Cons.IH by simp
  qed
qed

lemma mean_between:
  fixes as :: "rat list"
  assumes "as \<noteq> []" and "\<And>a. a \<in> set as \<Longrightarrow> lo \<le> a" and "\<And>a. a \<in> set as \<Longrightarrow> a \<le> hi"
  shows "lo \<le> sum_list as / of_nat (length as) \<and> sum_list as / of_nat (length as) \<le> hi"
proof -
  have n: "(0 :: rat) < of_nat (length as)" using assms(1) by simp
  have "sum_list (map (\<lambda>_. lo) as) \<le> sum_list (map (\<lambda>a. a) as)"
    by (rule sum_list_mono) (rule assms(2))
  then have l: "of_nat (length as) * lo \<le> sum_list as" by (simp add: sum_list_triv)
  have "sum_list (map (\<lambda>a. a) as) \<le> sum_list (map (\<lambda>_. hi) as)"
    by (rule sum_list_mono) (rule assms(3))
  then have h: "sum_list as \<le> of_nat (length as) * hi" by (simp add: sum_list_triv)
  from l h n show ?thesis by (simp add: field_simps)
qed

lemma fold_count_exact:
  assumes "n + length vs < 2 ^ 53"
  shows "fold (\<lambda>v c. dadd c (Fin 1)) vs (Fin (of_nat n)) = Fin (of_nat (n + length vs))"
  using assms
proof (induction vs arbitrary: n)
  case Nil
  then show ?case by simp
next
  case (Cons v vs)
  have "Suc n < 2 ^ 53" using Cons.prems by simp
  then have "round_to_double (of_nat (Suc n)) = Fin (of_nat (Suc n))"
    by (rule round_to_double_nat)
  then have step: "dadd (Fin (of_nat n)) (Fin 1) = Fin (of_nat (Suc n))"
    by (simp add: add.commute)
  have "Suc n + length vs < 2 ^ 53" using Cons.prems by simp
  from Cons.IH [OF this] step show ?case by simp
qed

section \<open>Conversion lemmas\<close>

lemma floor_int_half: "\<lfloor>(of_int k :: rat) + 1 / 2\<rfloor> = k"
  by (rule floor_unique) simp_all

lemma std_round_int: "std_round (Fin (of_int k)) = Fin (of_int k)"
proof (cases "0 \<le> k")
  case True
  then show ?thesis by (simp add: floor_int_half)
next
  case False
  have "\<lfloor>(of_int (- k) :: rat) + 1 / 2\<rfloor> = - k" by (rule floor_int_half)
  then show ?thesis using False by simp
qed

lemma unsigned_of_double_int:
  "unsigned_of_double (Fin (of_int k))
     = (if 0 \<le> k \<and> k < 2 ^ 32 then Inr (word_of_int k) else Inl UndefinedConversion)"
  by (simp add: unsigned_of_double_def)

section \<open>Rounding is monotone\<close>

lemma pow2_powi: "pow2 e = 2 powi e"
  by (simp add: pow2_def power_int_def inverse_eq_divide power_one_over)

lemma pow2_pos: "0 < pow2 e"
  by (simp add: pow2_powi)

lemma pow2_add: "pow2 (a + b) = pow2 a * pow2 b"
  by (simp add: pow2_powi power_int_add)

lemma pow2_mono: "a \<le> b \<Longrightarrow> pow2 a \<le> pow2 b"
  by (simp add: pow2_powi power_int_increasing)

lemma pow2_strict_mono: "a < b \<Longrightarrow> pow2 a < pow2 b"
  by (simp add: pow2_powi power_int_strict_increasing)

lemma pow2_nat: "pow2 (int n) = 2 ^ n"
  by (simp add: pow2_def)

lemma pow2_53: "pow2 (e + 1) = pow2 (e - 52) * 2 ^ 53"
proof -
  have "e + 1 = (e - 52) + 53" by simp
  then have "pow2 (e + 1) = pow2 ((e - 52) + 53)" by (simp only:)
  also have "\<dots> = pow2 (e - 52) * pow2 53" by (rule pow2_add)
  also have "pow2 53 = 2 ^ 53" by (simp add: pow2_def)
  finally show ?thesis .
qed

lemma pow2_52: "pow2 e = pow2 (e - 52) * 2 ^ 52"
proof -
  have "e = (e - 52) + 52" by simp
  then have "pow2 e = pow2 ((e - 52) + 52)" by (simp only:)
  also have "\<dots> = pow2 (e - 52) * pow2 52" by (rule pow2_add)
  also have "pow2 52 = 2 ^ 52" by (simp add: pow2_def)
  finally show ?thesis .
qed

lemma ilog2_bounds:
  assumes "0 < y"
  shows "pow2 (ilog2 y) \<le> y" and "y < pow2 (ilog2 y + 1)"
proof -
  have "pow2 (ilog2 y) \<le> y \<and> y < pow2 (ilog2 y + 1)"
  proof (cases "1 \<le> y")
    case True
    define b where "b = bitlen \<lfloor>y\<rfloor>"
    have fl: "0 < \<lfloor>y\<rfloor>" using True by simp
    from bitlen_bounds [OF fl]
    have lo: "2 ^ nat (b - 1) \<le> \<lfloor>y\<rfloor>" and hi: "\<lfloor>y\<rfloor> < 2 ^ nat b"
      by (simp_all add: b_def)
    have "b \<noteq> 0" using fl by (simp add: b_def bitlen_eq_zero_iff)
    moreover have "0 \<le> b" unfolding b_def by (rule bitlen_nonneg)
    ultimately have b1: "1 \<le> b" by linarith
    have e: "ilog2 y = b - 1" using True by (simp add: ilog2_def b_def)
    have "(of_int (2 ^ nat (b - 1)) :: rat) \<le> of_int \<lfloor>y\<rfloor>"
      using lo by (simp only: of_int_le_iff)
    also have "\<dots> \<le> y" by simp
    finally have l: "pow2 (b - 1) \<le> y" using b1 by (simp add: pow2_def)
    have "\<lfloor>y\<rfloor> + 1 \<le> 2 ^ nat b" using hi by simp
    then have "(of_int (\<lfloor>y\<rfloor> + 1) :: rat) \<le> of_int (2 ^ nat b)"
      by (simp only: of_int_le_iff)
    moreover have "y < of_int (\<lfloor>y\<rfloor> + 1)" by simp linarith
    ultimately have "y < of_int (2 ^ nat b)" by linarith
    then have h: "y < pow2 b" using b1 by (simp add: pow2_def)
    from l h e show ?thesis by simp
  next
    case False
    define z where "z = 1 / y"
    define c where "c = \<lceil>z\<rceil>"
    define b where "b = bitlen (c - 1)"
    have y1: "y < 1" using False by simp
    have z1: "1 < z" using assms y1 by (simp add: z_def)
    have c2: "2 \<le> c" using z1 by (simp add: c_def le_ceiling_iff)
    then have c1: "0 < c - 1" by simp
    from bitlen_bounds [OF c1]
    have lo: "2 ^ nat (b - 1) \<le> c - 1" and hi: "c - 1 < 2 ^ nat b"
      by (simp_all add: b_def)
    have "b \<noteq> 0" using c1 by (simp add: b_def bitlen_eq_zero_iff)
    moreover have "0 \<le> b" unfolding b_def by (rule bitlen_nonneg)
    ultimately have b1: "1 \<le> b" by linarith
    have e: "ilog2 y = - b" using False by (simp add: ilog2_def b_def c_def z_def)
    have zc: "z \<le> of_int c" and cz: "of_int (c - 1) < z"
      by (simp_all add: c_def) linarith+
    have cb: "c \<le> 2 ^ nat b" using hi by simp
    note zc
    also have "(of_int c :: rat) \<le> of_int (2 ^ nat b)" using cb by (simp only: of_int_le_iff)
    also have "(of_int (2 ^ nat b) :: rat) = 2 ^ nat b" by simp
    finally have zu: "z \<le> 2 ^ nat b" .
    have "(2 :: rat) ^ nat (b - 1) = of_int (2 ^ nat (b - 1))" by simp
    also have "\<dots> \<le> of_int (c - 1)" using lo by (simp only: of_int_le_iff)
    also note cz
    finally have zl: "2 ^ nat (b - 1) < z" .
    have yz: "y = 1 / z" using assms by (simp add: z_def)
    have zpos: "0 < z" using z1 by simp
    have "1 / 2 ^ nat b \<le> 1 / z"
      using zu zpos by (simp add: frac_le)
    then have l: "pow2 (- b) \<le> y" using b1 by (simp add: pow2_def yz)
    have "1 / z < 1 / 2 ^ nat (b - 1)"
      using zl by (simp add: frac_less2)
    then have h: "y < pow2 (- b + 1)"
    proof (cases "b = 1")
      case True
      with \<open>1 / z < 1 / 2 ^ nat (b - 1)\<close> show ?thesis by (simp add: pow2_def yz)
    next
      case False
      with b1 have "- b + 1 < 0" by simp
      moreover have "nat (- (- b + 1)) = nat (b - 1)" by simp
      ultimately show ?thesis using \<open>1 / z < 1 / 2 ^ nat (b - 1)\<close>
        by (simp add: pow2_def yz)
    qed
    from l h e show ?thesis by simp
  qed
  then show "pow2 (ilog2 y) \<le> y" and "y < pow2 (ilog2 y + 1)" by simp_all
qed

lemma ilog2_mono:
  assumes "0 < x" and "x \<le> y"
  shows "ilog2 x \<le> ilog2 y"
proof (rule ccontr)
  assume "\<not> ilog2 x \<le> ilog2 y"
  then have "ilog2 y + 1 \<le> ilog2 x" by simp
  then have "pow2 (ilog2 y + 1) \<le> pow2 (ilog2 x)" by (rule pow2_mono)
  also have "\<dots> \<le> x" using assms(1) by (rule ilog2_bounds)
  also have "\<dots> \<le> y" by (rule assms(2))
  finally have "pow2 (ilog2 y + 1) \<le> y" .
  moreover have "y < pow2 (ilog2 y + 1)" using assms by (intro ilog2_bounds) simp
  ultimately show False by simp
qed

lemma round_half_even_neg: "round_half_even (- q) = - round_half_even q"
proof (cases "q = of_int \<lfloor>q\<rfloor>")
  case True
  then have "\<lfloor>- q\<rfloor> = - \<lfloor>q\<rfloor>" by (metis floor_of_int of_int_minus)
  with True show ?thesis by (simp add: round_half_even_def Let_def)
next
  case False
  then have fl: "\<lfloor>- q\<rfloor> = - \<lfloor>q\<rfloor> - 1"
    by (simp add: floor_minus ceiling_altdef)
  define d where "d = q - of_int \<lfloor>q\<rfloor>"
  have d0: "0 < d" using False by (simp add: d_def less_le)
  have d': "- q - of_int \<lfloor>- q\<rfloor> = 1 - d" by (simp add: fl d_def)
  show ?thesis
    unfolding round_half_even_def Let_def d' d_def [symmetric]
    by (auto simp: fl)
qed

lemma round_to_double_nonzero:
  assumes "x \<noteq> 0" and "e = max (ilog2 \<bar>x\<bar>) (- 1022)"
    and "m = round_half_even (x / pow2 (e - 52))"
  shows "round_to_double x =
     (if 1023 < e \<or> (e = 1023 \<and> 2 ^ 53 \<le> \<bar>m\<bar>) then (if 0 < x then PInf else NInf)
      else Fin (of_int m * pow2 (e - 52)))"
  unfolding round_to_double_def Let_def assms(3) assms(2)
  using assms(1) by (simp only: if_False)

lemma significand_less:
  assumes "0 < x" and "ilog2 x \<le> e"
  shows "x / pow2 (e - 52) < 2 ^ 53"
proof -
  have "x < pow2 (ilog2 x + 1)" using assms(1) by (rule ilog2_bounds)
  also have "\<dots> \<le> pow2 (e + 1)" using assms(2) by (intro pow2_mono) simp
  also have "\<dots> = 2 ^ 53 * pow2 (e - 52)" by (simp add: pow2_53)
  finally show ?thesis by (simp add: pos_divide_less_eq pow2_pos)
qed

lemma significand_ge:
  assumes "0 < x"
  shows "2 ^ 52 \<le> x / pow2 (ilog2 x - 52)"
proof -
  have "2 ^ 52 * pow2 (ilog2 x - 52) = pow2 (ilog2 x)" by (simp add: pow2_52 [of "ilog2 x"])
  also have "\<dots> \<le> x" using assms by (rule ilog2_bounds)
  finally show ?thesis by (simp add: pos_le_divide_eq pow2_pos)
qed

lemma representable_pos:
  assumes "0 < h" and "round_to_double h = Fin h"
    and "e = max (ilog2 h) (- 1022)" and "m = round_half_even (h / pow2 (e - 52))"
  shows "h = of_int m * pow2 (e - 52)" and "\<not> 1023 < e" and "e = 1023 \<longrightarrow> \<bar>m\<bar> < 2 ^ 53"
proof -
  have ne: "h \<noteq> 0" and ab: "\<bar>h\<bar> = h" using assms(1) by simp_all
  have e': "e = max (ilog2 \<bar>h\<bar>) (- 1022)" unfolding ab by (rule assms(3))
  have R: "round_to_double h =
     (if 1023 < e \<or> (e = 1023 \<and> 2 ^ 53 \<le> \<bar>m\<bar>) then (if 0 < h then PInf else NInf)
      else Fin (of_int m * pow2 (e - 52)))"
    by (rule round_to_double_nonzero [OF ne e' assms(4)])
  have C: "\<not> (1023 < e \<or> (e = 1023 \<and> 2 ^ 53 \<le> \<bar>m\<bar>))"
  proof
    assume "1023 < e \<or> (e = 1023 \<and> 2 ^ 53 \<le> \<bar>m\<bar>)"
    with R assms(1) have "round_to_double h = PInf" by (simp only: if_True)
    with assms(2) show False by simp
  qed
  with R have "round_to_double h = Fin (of_int m * pow2 (e - 52))" by (simp only: if_False)
  with assms(2) show "h = of_int m * pow2 (e - 52)" by simp
  from C show "\<not> 1023 < e" and "e = 1023 \<longrightarrow> \<bar>m\<bar> < 2 ^ 53" by auto
qed

lemma round_to_double_upper:
  assumes x: "0 < x" and le: "x \<le> h" and rep: "round_to_double h = Fin h"
  shows "\<exists>y. round_to_double x = Fin y \<and> 0 \<le> y \<and> y \<le> h"
proof -
  define ex where "ex = max (ilog2 x) (- 1022)"
  define mx where "mx = round_half_even (x / pow2 (ex - 52))"
  define eh where "eh = max (ilog2 h) (- 1022)"
  define mh where "mh = round_half_even (h / pow2 (eh - 52))"
  have h: "0 < h" using x le by simp
  note rh = representable_pos [OF h rep eh_def mh_def]
  have "ilog2 x \<le> ilog2 h" using x le by (rule ilog2_mono)
  then have ee: "ex \<le> eh" by (simp add: ex_def eh_def)
  have "0 \<le> x / pow2 (ex - 52)" using x pow2_pos [of "ex - 52"] by simp
  then have "(of_int 0 :: rat) \<le> x / pow2 (ex - 52)" by simp
  then have mx0: "0 \<le> mx" unfolding mx_def by (rule round_half_even_ge)
  have "x / pow2 (ex - 52) < 2 ^ 53"
    using x by (rule significand_less) (simp add: ex_def)
  then have "x / pow2 (ex - 52) \<le> of_int (2 ^ 53)" by simp
  then have mx53: "mx \<le> 2 ^ 53" unfolding mx_def by (rule round_half_even_le)
  have bound: "of_int mx * pow2 (ex - 52) \<le> h \<and> (ex = 1023 \<longrightarrow> mx < 2 ^ 53)"
  proof (cases "ex = eh")
    case True
    have "h / pow2 (eh - 52) = of_int mh"
      using rh(1) pow2_pos [of "eh - 52"] by (simp add: field_simps)
    moreover have "x / pow2 (eh - 52) \<le> h / pow2 (eh - 52)"
      using le by (rule divide_right_mono) (rule order.strict_implies_order [OF pow2_pos])
    ultimately have "x / pow2 (ex - 52) \<le> of_int mh"
      using True by simp
    then have mm: "mx \<le> mh" unfolding mx_def by (rule round_half_even_le)
    then have "(of_int mx :: rat) \<le> of_int mh" by (simp only: of_int_le_iff)
    then have "of_int mx * pow2 (ex - 52) \<le> of_int mh * pow2 (eh - 52)"
      using pow2_pos [of "eh - 52"] True by (simp add: mult_right_mono)
    then show ?thesis using rh(1,3) mm True by auto
  next
    case False
    with ee have lt: "ex < eh" by simp
    then have "- 1022 < eh" by (simp add: ex_def)
    then have eh: "eh = ilog2 h" by (simp add: eh_def)
    have "(of_int mx :: rat) \<le> of_int (2 ^ 53)" using mx53 by (simp only: of_int_le_iff)
    then have "(of_int mx :: rat) \<le> 2 ^ 53" by simp
    then have "of_int mx * pow2 (ex - 52) \<le> 2 ^ 53 * pow2 (ex - 52)"
      using pow2_pos [of "ex - 52"] by (simp add: mult_right_mono)
    also have "\<dots> = pow2 (ex + 1)" by (simp add: pow2_53)
    also have "\<dots> \<le> pow2 eh" using lt by (intro pow2_mono) simp
    also have "\<dots> \<le> h" unfolding eh using h by (rule ilog2_bounds)
    finally have "of_int mx * pow2 (ex - 52) \<le> h" .
    moreover have "ex \<noteq> 1023" using lt rh(2) by simp
    ultimately show ?thesis by simp
  qed
  have ne: "x \<noteq> 0" and ab: "\<bar>x\<bar> = x" using x by simp_all
  have ex': "ex = max (ilog2 \<bar>x\<bar>) (- 1022)" unfolding ab by (rule ex_def)
  note R = round_to_double_nonzero [OF ne ex' mx_def]
  have "\<not> 1023 < ex" using ee rh(2) by simp
  moreover have "\<not> (ex = 1023 \<and> 2 ^ 53 \<le> \<bar>mx\<bar>)" using bound mx0 by auto
  ultimately have "\<not> (1023 < ex \<or> (ex = 1023 \<and> 2 ^ 53 \<le> \<bar>mx\<bar>))" by blast
  with R have "round_to_double x = Fin (of_int mx * pow2 (ex - 52))"
    by (simp only: if_False)
  moreover have "0 \<le> of_int mx * pow2 (ex - 52)"
    using mx0 pow2_pos [of "ex - 52"] by simp
  ultimately show ?thesis using bound by blast
qed

lemma round_to_double_lower:
  assumes l: "0 < l" and le: "l \<le> x" and rep: "round_to_double l = Fin l"
  shows "round_to_double x = PInf \<or> (\<exists>y. round_to_double x = Fin y \<and> l \<le> y)"
proof -
  define ex where "ex = max (ilog2 x) (- 1022)"
  define mx where "mx = round_half_even (x / pow2 (ex - 52))"
  define el where "el = max (ilog2 l) (- 1022)"
  define ml where "ml = round_half_even (l / pow2 (el - 52))"
  have x: "0 < x" using l le by simp
  note rl = representable_pos [OF l rep el_def ml_def]
  have "ilog2 l \<le> ilog2 x" using l le by (rule ilog2_mono)
  then have ee: "el \<le> ex" by (simp add: ex_def el_def)
  have bound: "l \<le> of_int mx * pow2 (ex - 52)"
  proof (cases "el = ex")
    case True
    have "l / pow2 (el - 52) = of_int ml"
      using rl(1) pow2_pos [of "el - 52"] by (simp add: field_simps)
    moreover have "l / pow2 (el - 52) \<le> x / pow2 (el - 52)"
      using le by (rule divide_right_mono) (rule order.strict_implies_order [OF pow2_pos])
    ultimately have "of_int ml \<le> x / pow2 (ex - 52)"
      using True by simp
    then have "ml \<le> mx" unfolding mx_def by (rule round_half_even_ge)
    then have "(of_int ml :: rat) \<le> of_int mx" by (simp only: of_int_le_iff)
    then have "of_int ml * pow2 (el - 52) \<le> of_int mx * pow2 (ex - 52)"
      using pow2_pos [of "el - 52"] True by (simp add: mult_right_mono)
    then show ?thesis using rl(1) by simp
  next
    case False
    with ee have lt: "el < ex" by simp
    then have "- 1022 < ex" by (simp add: el_def)
    then have ex: "ex = ilog2 x" by (simp add: ex_def)
    have "l / pow2 (el - 52) < 2 ^ 53"
      using l by (rule significand_less) (simp add: el_def)
    then have "l / pow2 (el - 52) \<le> of_int (2 ^ 53)" by simp
    then have "ml \<le> 2 ^ 53" unfolding ml_def by (rule round_half_even_le)
    then have "(of_int ml :: rat) \<le> of_int (2 ^ 53)" by (simp only: of_int_le_iff)
    then have "(of_int ml :: rat) \<le> 2 ^ 53" by simp
    then have "of_int ml * pow2 (el - 52) \<le> 2 ^ 53 * pow2 (el - 52)"
      using pow2_pos [of "el - 52"] by (simp add: mult_right_mono)
    also have "\<dots> = pow2 (el + 1)" by (simp add: pow2_53)
    also have "\<dots> \<le> pow2 ex" using lt by (intro pow2_mono) simp
    finally have l1: "l \<le> pow2 ex" using rl(1) by simp
    have "(of_int (2 ^ 52) :: rat) \<le> x / pow2 (ex - 52)"
      using significand_ge [OF x] by (simp add: ex)
    then have "2 ^ 52 \<le> mx" unfolding mx_def by (rule round_half_even_ge)
    then have "(of_int (2 ^ 52) :: rat) \<le> of_int mx" by (simp only: of_int_le_iff)
    then have "(2 ^ 52 :: rat) \<le> of_int mx" by simp
    then have "2 ^ 52 * pow2 (ex - 52) \<le> of_int mx * pow2 (ex - 52)"
      using pow2_pos [of "ex - 52"] by (simp add: mult_right_mono)
    then have "pow2 ex \<le> of_int mx * pow2 (ex - 52)" by (simp add: pow2_52 [of ex])
    with l1 show ?thesis by simp
  qed
  have ne: "x \<noteq> 0" and ab: "\<bar>x\<bar> = x" using x by simp_all
  have ex': "ex = max (ilog2 \<bar>x\<bar>) (- 1022)" unfolding ab by (rule ex_def)
  note R = round_to_double_nonzero [OF ne ex' mx_def]
  have "round_to_double x = PInf \<or> round_to_double x = Fin (of_int mx * pow2 (ex - 52))"
  proof (cases "1023 < ex \<or> (ex = 1023 \<and> 2 ^ 53 \<le> \<bar>mx\<bar>)")
    case True
    with R x have "round_to_double x = PInf" by (simp only: if_True)
    then show ?thesis ..
  next
    case False
    with R have "round_to_double x = Fin (of_int mx * pow2 (ex - 52))" by (simp only: if_False)
    then show ?thesis ..
  qed
  with bound show ?thesis by blast
qed

lemma round_to_double_minus:
  "round_to_double (- x) =
     (case round_to_double x of Fin y \<Rightarrow> Fin (- y) | PInf \<Rightarrow> NInf | NInf \<Rightarrow> PInf | NaN \<Rightarrow> NaN)"
proof (cases "x = 0")
  case True
  then show ?thesis by (simp add: round_to_double_def)
next
  case False
  define e where "e = max (ilog2 \<bar>x\<bar>) (- 1022)"
  define m where "m = round_half_even (x / pow2 (e - 52))"
  have ne: "- x \<noteq> 0" using False by simp
  have e': "e = max (ilog2 \<bar>- x\<bar>) (- 1022)" by (simp add: e_def)
  have m': "- m = round_half_even (- x / pow2 (e - 52))"
    by (simp add: m_def round_half_even_neg [symmetric])
  note R1 = round_to_double_nonzero [OF False e_def m_def]
  note R2 = round_to_double_nonzero [OF ne e' m']
  show ?thesis
  proof (cases "1023 < e \<or> (e = 1023 \<and> 2 ^ 53 \<le> \<bar>m\<bar>)")
    case True
    then have T2: "1023 < e \<or> (e = 1023 \<and> 2 ^ 53 \<le> \<bar>- m\<bar>)" by simp
    from R1 True have r1: "round_to_double x = (if 0 < x then PInf else NInf)"
      by (simp only: if_True)
    from R2 T2 have r2: "round_to_double (- x) = (if 0 < - x then PInf else NInf)"
      by (simp only: if_True)
    show ?thesis using False by (cases "0 < x") (simp_all add: r1 r2)
  next
    case F: False
    then have F2: "\<not> (1023 < e \<or> (e = 1023 \<and> 2 ^ 53 \<le> \<bar>- m\<bar>))" by simp
    from R1 F have r1: "round_to_double x = Fin (of_int m * pow2 (e - 52))"
      by (simp only: if_False)
    from R2 F2 have r2: "round_to_double (- x) = Fin (of_int (- m) * pow2 (e - 52))"
      by (simp only: if_False)
    show ?thesis by (simp add: r1 r2)
  qed
qed

lemma round_to_double_pos:
  assumes "0 < x"
  shows "round_to_double x = PInf \<or> (\<exists>y. round_to_double x = Fin y \<and> 0 \<le> y)"
proof -
  define e where "e = max (ilog2 \<bar>x\<bar>) (- 1022)"
  define m where "m = round_half_even (x / pow2 (e - 52))"
  have ne: "x \<noteq> 0" using assms by simp
  note R = round_to_double_nonzero [OF ne e_def m_def]
  have "0 \<le> x / pow2 (e - 52)" using assms pow2_pos [of "e - 52"] by simp
  then have "(of_int 0 :: rat) \<le> x / pow2 (e - 52)" by simp
  then have "0 \<le> m" unfolding m_def by (rule round_half_even_ge)
  then have y: "0 \<le> of_int m * pow2 (e - 52)" using pow2_pos [of "e - 52"] by simp
  show ?thesis
  proof (cases "1023 < e \<or> (e = 1023 \<and> 2 ^ 53 \<le> \<bar>m\<bar>)")
    case True
    with R assms have "round_to_double x = PInf" by (simp only: if_True)
    then show ?thesis ..
  next
    case False
    with R have "round_to_double x = Fin (of_int m * pow2 (e - 52))" by (simp only: if_False)
    with y show ?thesis by blast
  qed
qed

lemma round_to_double_le:
  assumes le: "x \<le> h" and rep: "round_to_double h = Fin h"
  shows "dle (round_to_double x) (Fin h)"
proof -
  consider "0 < x" | "x = 0" | "x < 0" "h < 0" | "x < 0" "0 \<le> h" by linarith
  then show ?thesis
  proof cases
    case 1
    from round_to_double_upper [OF 1 le rep] show ?thesis by auto
  next
    case 2
    then show ?thesis using le by (simp add: round_to_double_def)
  next
    case 3
    have l: "0 < - h" and lz: "- h \<le> - x" using 3 le by simp_all
    have rl: "round_to_double (- h) = Fin (- h)"
      by (simp add: round_to_double_minus [of h] rep)
    from round_to_double_lower [OF l lz rl]
    show ?thesis
    proof
      assume "round_to_double (- x) = PInf"
      then show ?thesis using round_to_double_minus [of "- x"] by simp
    next
      assume "\<exists>y. round_to_double (- x) = Fin y \<and> - h \<le> y"
      then obtain y where "round_to_double (- x) = Fin y" and "- h \<le> y" by blast
      then show ?thesis using round_to_double_minus [of "- x"] by simp
    qed
  next
    case 4
    then have "0 < - x" by simp
    from round_to_double_pos [OF this]
    show ?thesis
    proof
      assume "round_to_double (- x) = PInf"
      then show ?thesis using round_to_double_minus [of "- x"] by simp
    next
      assume "\<exists>y. round_to_double (- x) = Fin y \<and> 0 \<le> y"
      then obtain y where "round_to_double (- x) = Fin y" and "0 \<le> y" by blast
      then show ?thesis using round_to_double_minus [of "- x"] 4 by simp
    qed
  qed
qed

lemma round_to_double_ge:
  assumes le: "l \<le> x" and rep: "round_to_double l = Fin l"
  shows "dle (Fin l) (round_to_double x)"
proof -
  have "- x \<le> - l" using le by simp
  moreover have "round_to_double (- l) = Fin (- l)"
    by (simp add: round_to_double_minus [of l] rep)
  ultimately have "dle (round_to_double (- x)) (Fin (- l))" by (rule round_to_double_le)
  then show ?thesis
    by (cases "round_to_double x") (simp_all add: round_to_double_minus [of x])
qed

lemma dle_Fin_trans: "a \<le> b \<Longrightarrow> dle (Fin b) d \<Longrightarrow> dle (Fin a) d"
  by (cases d) simp_all

lemma dle_trans_Fin: "dle d (Fin a) \<Longrightarrow> a \<le> b \<Longrightarrow> dle d (Fin b)"
  by (cases d) simp_all

lemma rate_bounds:
  assumes "as \<noteq> []"
  shows "\<exists>lo hi.
           mMin (fold_samples (map Fin as) RateVals_init) = Fin lo
         \<and> mMax (fold_samples (map Fin as) RateVals_init) = Fin hi
         \<and> (\<forall>a\<in>set as. lo \<le> a \<and> a \<le> hi)
         \<and> lo \<le> sum_list as / of_nat (length as)
         \<and> sum_list as / of_nat (length as) \<le> hi
         \<and> (length as < 2 ^ 53 \<longrightarrow>
               mCount (fold_samples (map Fin as) RateVals_init) = Fin (of_nat (length as)))"
proof -
  define lo where "lo = fold (\<lambda>a m. min m a) as numeric_limits_double_max"
  define hi where "hi = fold (\<lambda>a m. max m a) as numeric_limits_double_min"
  have mn: "mMin (fold_samples (map Fin as) RateVals_init) = Fin lo"
    by (simp add: mMin_fold_samples RateVals_init_def fold_min_Fin lo_def)
  have mx: "mMax (fold_samples (map Fin as) RateVals_init) = Fin hi"
    by (simp add: mMax_fold_samples RateVals_init_def fold_max_Fin hi_def)
  have l: "lo \<le> a" if "a \<in> set as" for a
    unfolding lo_def using that by (rule fold_min_le_elem)
  have h: "a \<le> hi" if "a \<in> set as" for a
    unfolding hi_def using that by (rule fold_max_ge_elem)
  have mean: "lo \<le> sum_list as / of_nat (length as) \<and> sum_list as / of_nat (length as) \<le> hi"
    using assms l h by (rule mean_between)
  have cnt: "mCount (fold_samples (map Fin as) RateVals_init) = Fin (of_nat (length as))"
    if "length as < 2 ^ 53"
    using that fold_count_exact [of 0 "map Fin as"]
    by (simp add: mCount_fold_samples RateVals_init_def)
  from mn mx l h mean cnt show ?thesis by blast
qed

section \<open>The window rounder in 64-bit ticks\<close>

lemma sdiv_mult_cancel: "(a * 1000) sdiv (b * 1000) = a sdiv (b :: int)"
  by (simp add: signed_divide_int_def abs_mult sgn_mult)

lemma sdiv_mult_between:
  assumes "0 < (b :: int)"
  shows "0 \<le> a \<Longrightarrow> 0 \<le> (a sdiv b) * b \<and> (a sdiv b) * b \<le> a"
    and "a < 0 \<Longrightarrow> a \<le> (a sdiv b) * b \<and> (a sdiv b) * b \<le> 0"
proof -
  show "0 \<le> (a sdiv b) * b \<and> (a sdiv b) * b \<le> a" if "0 \<le> a"
  proof -
    define d where "d = a div b * b"
    have "d + a mod b = a" by (simp add: d_def)
    moreover have "0 \<le> a mod b" using assms by simp
    moreover have "0 \<le> a div b" using that assms by (simp add: pos_imp_zdiv_nonneg_iff)
    then have "0 \<le> d" using assms by (simp add: d_def)
    ultimately have "0 \<le> d \<and> d \<le> a" by linarith
    then show ?thesis using that assms by (simp only: sdiv_nonneg d_def)
  qed
  show "a \<le> (a sdiv b) * b \<and> (a sdiv b) * b \<le> 0" if "a < 0"
  proof -
    define d where "d = (- a) div b * b"
    have "d + (- a) mod b = - a" by (simp add: d_def)
    moreover have "0 \<le> (- a) mod b" using assms by simp
    moreover have "0 \<le> (- a) div b" using that assms by (simp add: pos_imp_zdiv_nonneg_iff)
    then have "0 \<le> d" using assms by (simp add: d_def)
    ultimately have "a \<le> - d \<and> - d \<le> 0" by linarith
    moreover have "(a sdiv b) * b = - d" using that assms by (simp add: sdiv_neg d_def)
    ultimately show ?thesis by simp
  qed
qed

lemma int64_Inr: "int64 k = Inr r \<longleftrightarrow> r = k \<and> - (2 ^ 63) \<le> k \<and> k < 2 ^ 63"
  by (auto simp: int64_def)

lemma int64_in_range: "- (2 ^ 63) \<le> k \<Longrightarrow> k < 2 ^ 63 \<Longrightarrow> int64 k = Inr k"
  by (simp add: int64_def)

lemma roundTimeNow_Inr:
  assumes S: "0 < sint (mMonitoringIntervalStepUs s)"
    and r: "roundTimeNow s pNowUs = Inr r"
  shows "r = ((pNowUs + (sint (mMonitoringIntervalStepUs s) - 1))
                sdiv sint (mMonitoringIntervalStepUs s)) * sint (mMonitoringIntervalStepUs s)"
proof -
  let ?S = "sint (mMonitoringIntervalStepUs s)"
  have s1: "sint (mMonitoringIntervalStepUs s - 1) = ?S - 1" using S by (rule sint_step_pred)
  from r have "r = ((pNowUs * 1000 + (?S - 1) * 1000) sdiv (?S * 1000)) * ?S"
    unfolding roundTimeNow_def s1
    by (auto simp: int64_Inr split: sum.splits if_splits)
  moreover have "pNowUs * 1000 + (?S - 1) * 1000 = (pNowUs + (?S - 1)) * 1000"
    by (simp add: algebra_simps)
  ultimately show ?thesis by (simp only: sdiv_mult_cancel)
qed

lemma roundTimeNow_eq:
  assumes S: "0 < sint (mMonitoringIntervalStepUs s)"
    and lo: "- (2 ^ 63) \<le> pNowUs * 1000"
    and st: "sint (mMonitoringIntervalStepUs s) * 1000 < 2 ^ 63"
    and hi: "pNowUs * 1000 + sint (mMonitoringIntervalStepUs s) * 1000 < 2 ^ 63"
  shows "roundTimeNow s pNowUs =
           Inr (((pNowUs + (sint (mMonitoringIntervalStepUs s) - 1))
                   sdiv sint (mMonitoringIntervalStepUs s)) * sint (mMonitoringIntervalStepUs s))"
proof -
  let ?S = "sint (mMonitoringIntervalStepUs s)"
  let ?q = "(pNowUs + (?S - 1)) sdiv ?S"
  have s1: "sint (mMonitoringIntervalStepUs s - 1) = ?S - 1" using S by (rule sint_step_pred)
  have c1: "int64 (pNowUs * 1000) = Inr (pNowUs * 1000)"
    using lo hi S by (intro int64_in_range) simp_all
  have c2: "int64 ((?S - 1) * 1000) = Inr ((?S - 1) * 1000)"
    using st S by (intro int64_in_range) simp_all
  have c3: "int64 (pNowUs * 1000 + (?S - 1) * 1000) = Inr ((pNowUs + (?S - 1)) * 1000)"
    using lo hi S by (simp add: int64_def algebra_simps)
  have c4: "int64 (?S * 1000) = Inr (?S * 1000)"
    using st S by (intro int64_in_range) simp_all
  have ne: "?S * 1000 \<noteq> 0" using S by simp
  have q: "((pNowUs + (?S - 1)) * 1000) sdiv (?S * 1000) = ?q" by (rule sdiv_mult_cancel)
  define X where "X = ?q * ?S"
  have hi': "pNowUs * 1000 + ?S * 1000 < 9223372036854775808" using hi by simp
  have lo': "- 9223372036854775808 \<le> pNowUs * 1000" using lo by simp
  have "- 9223372036854775808 \<le> X * 1000 \<and> X * 1000 < 9223372036854775808"
  proof (cases "0 \<le> pNowUs + (?S - 1)")
    case True
    from sdiv_mult_between(1) [OF S True] have "0 \<le> X \<and> X \<le> pNowUs + (?S - 1)"
      by (simp only: X_def)
    with hi' show ?thesis by linarith
  next
    case False
    then have "pNowUs + (?S - 1) < 0" by simp
    from sdiv_mult_between(2) [OF S this] have "pNowUs + (?S - 1) \<le> X \<and> X \<le> 0"
      by (simp only: X_def)
    with lo' S show ?thesis by linarith
  qed
  then have xr: "- 9223372036854775808 \<le> X * 1000" "X * 1000 < 9223372036854775808"
    "- 9223372036854775808 \<le> X" "X < 9223372036854775808"
    by linarith+
  have c5: "int64 X = Inr X" using xr by (simp add: int64_def)
  have c6: "int64 (X * 1000) = Inr (X * 1000)" using xr by (simp add: int64_def)
  have "roundTimeNow s pNowUs = Inr X"
    unfolding roundTimeNow_def s1
    by (simp only: c1 c2 c3 c4 q ne sum.case if_False X_def [symmetric] c5 c6)
  then show ?thesis by (simp only: X_def)
qed

section \<open>The contents of the queues after a burst\<close>

lemma take_take_append: "take n (take n xs @ ys) = take n (xs @ ys)"
  by (simp add: min_def)

lemma push_capacity_take:
  "length q \<le> pCap \<Longrightarrow> push_capacity pCap x q = take pCap (q @ [x])"
  by (simp add: push_capacity_def)

lemma burst_enabled:
  assumes "mLogMetric s \<or> mO2Monitoring s \<noteq> None"
    and "length (mMetricsQueue s) \<le> 4096" and "length (mRateMetricsQueue s) \<le> 4096"
  shows "burst cs s =
           s\<lparr>mMetricsQueue := take 4096 (mMetricsQueue s @ pushed cs),
             mRateMetricsQueue := take 4096 (mRateMetricsQueue s @ pushed_rate cs)\<rparr>"
  using assms
proof (induction cs arbitrary: s)
  case Nil
  then show ?case by simp
next
  case (Cons c cs)
  show ?case
  proof (cases c)
    case (Push n k v)
    let ?s = "push n k v s"
    have st: "?s = s\<lparr>mMetricsQueue := take 4096 (mMetricsQueue s @ [(n, k, v)])\<rparr>"
      using Cons.prems by (simp add: push_def push_capacity_take)
    have "burst cs ?s =
           ?s\<lparr>mMetricsQueue := take 4096 (mMetricsQueue ?s @ pushed cs),
              mRateMetricsQueue := take 4096 (mRateMetricsQueue ?s @ pushed_rate cs)\<rparr>"
      using Cons.prems by (intro Cons.IH) (simp_all add: st)
    then show ?thesis
      using Push by (simp add: st take_take_append del: take_append)
  next
    case (PushRate n k v)
    let ?s = "push_rate n k v s"
    have st: "?s = s\<lparr>mRateMetricsQueue := take 4096 (mRateMetricsQueue s @ [(n, k, v)])\<rparr>"
      using Cons.prems by (simp add: push_rate_def push_capacity_take)
    have "burst cs ?s =
           ?s\<lparr>mMetricsQueue := take 4096 (mMetricsQueue ?s @ pushed cs),
              mRateMetricsQueue := take 4096 (mRateMetricsQueue ?s @ pushed_rate cs)\<rparr>"
      using Cons.prems by (intro Cons.IH) (simp_all add: st)
    then show ?thesis
      using PushRate by (simp add: st take_take_append del: take_append)
  qed
qed

lemma burst_disabled:
  assumes "\<not> mLogMetric s" and "mO2Monitoring s = None"
  shows "burst cs s = s"
  using assms
proof (induction cs arbitrary: s)
  case Nil
  then show ?case by simp
next
  case (Cons c cs)
  then have "producer_step c s = s" by (cases c) (simp_all add: push_def push_rate_def)
  with Cons show ?case by simp
qed

lemma pushed_replicate: "pushed (replicate n (Push a k v)) = replicate n (a, k, v)"
  by (induction n) simp_all

lemma pushed_rate_replicate: "pushed_rate (replicate n (Push a k v)) = []"
  by (induction n) simp_all

section \<open>Exact sums of permuted samples\<close>


section \<open>The claims\<close>


subsection \<open>C1: the mean between the minimum and the maximum\<close>

text \<open>
  Claim C1, as stated: every record with a positive count that results from folding
  samples into the initial record satisfies \<open>min \<le> meanAccumulator / count \<le> max\<close>.
  It fails in float64: three samples equal to the double nearest to one tenth sum to a
  value whose third, rounded, is the next double above the samples, so the reported mean
  exceeds the maximum.
\<close>

theorem rate_mean_counterexample:
  "mCount (fold_samples
      [Fin (3602879701896397 / 36028797018963968), Fin (3602879701896397 / 36028797018963968),
       Fin (3602879701896397 / 36028797018963968)] RateVals_init) = Fin 3
   \<and> mMax (fold_samples
      [Fin (3602879701896397 / 36028797018963968), Fin (3602879701896397 / 36028797018963968),
       Fin (3602879701896397 / 36028797018963968)] RateVals_init)
        = Fin (3602879701896397 / 36028797018963968)
   \<and> mean (fold_samples
      [Fin (3602879701896397 / 36028797018963968), Fin (3602879701896397 / 36028797018963968),
       Fin (3602879701896397 / 36028797018963968)] RateVals_init)
        = Some (Fin (7205759403792795 / 72057594037927936))
   \<and> \<not> mean_within (fold_samples
      [Fin (3602879701896397 / 36028797018963968), Fin (3602879701896397 / 36028797018963968),
       Fin (3602879701896397 / 36028797018963968)] RateVals_init)"
proof -
  let ?x = "Fin (3602879701896397 / 36028797018963968)"
  let ?r = "fold_samples [?x, ?x, ?x] RateVals_init"
  have acc: "fold (\<lambda>v a. dadd a v) [?x, ?x, ?x] (Fin 0) = Fin (5404319552844596 / 18014398509481984)"
    by code_simp
  have cnt: "fold (\<lambda>v c. dadd c (Fin 1)) [?x, ?x, ?x] (Fin 0) = Fin 3"
    by code_simp
  have q: "ddiv (Fin (5404319552844596 / 18014398509481984)) (Fin 3)
             = Fin (7205759403792795 / 72057594037927936)"
    by code_simp
  have c: "mCount ?r = Fin 3"
    by (simp only: mCount_fold_samples cnt) (simp add: RateVals_init_def cnt [simplified])
  have a: "mMeanAcc ?r = Fin (5404319552844596 / 18014398509481984)"
    by (simp only: mMeanAcc_fold_samples) (simp add: RateVals_init_def acc [simplified])
  have m: "mean ?r = Some (Fin (7205759403792795 / 72057594037927936))"
    using q by (simp add: mean_def c a)
  have mx: "mMax ?r = ?x"
    by (simp add: mMax_fold_samples RateVals_init_def std_max_def numeric_limits_double_min_def)
  have "\<not> mean_within ?r"
    by (simp add: mean_within_def m mx)
  with c mx m show ?thesis by simp
qed

text \<open>
  Claim C1, amended: after folding \<open>n\<close> finite float64 samples into the initial record,
  with \<open>1 \<le> n < 2 ^ 53\<close>, if the accumulator holds the exact sum of the samples (no
  addition was rounded), then \<open>min \<le> meanAccumulator / count \<le> max\<close>, with the quotient
  computed and compared in float64; the count is \<open>n\<close> and the quotient is the float64
  nearest to the exact mean of the samples.
\<close>

theorem rate_mean_within:
  assumes ne: "as \<noteq> []"
    and len: "length as < 2 ^ 53"
    and rep: "\<forall>a\<in>set as. round_to_double a = Fin a"
    and exact: "mMeanAcc (fold_samples (map Fin as) RateVals_init) = Fin (sum_list as)"
  shows "mean_within (fold_samples (map Fin as) RateVals_init)
       \<and> mean (fold_samples (map Fin as) RateVals_init)
           = Some (round_to_double (sum_list as / of_nat (length as)))
       \<and> mCount (fold_samples (map Fin as) RateVals_init) = Fin (of_nat (length as))"
proof -
  let ?r = "fold_samples (map Fin as) RateVals_init"
  let ?q = "sum_list as / of_nat (length as)"
  define lo where "lo = fold (\<lambda>a m. min m a) as numeric_limits_double_max"
  define hi where "hi = fold (\<lambda>a m. max m a) as numeric_limits_double_min"
  have mn: "mMin ?r = Fin lo"
    by (simp add: mMin_fold_samples RateVals_init_def fold_min_Fin lo_def)
  have mx: "mMax ?r = Fin hi"
    by (simp add: mMax_fold_samples RateVals_init_def fold_max_Fin hi_def)
  have cnt: "mCount ?r = Fin (of_nat (length as))"
    using len fold_count_exact [of 0 "map Fin as"]
    by (simp add: mCount_fold_samples RateVals_init_def)
  have n0: "(of_nat (length as) :: rat) \<noteq> 0" using ne by simp
  have mean: "mean ?r = Some (round_to_double ?q)"
    using n0 by (simp add: mean_def cnt exact)
  have fin: "finite (set as)" and nonempty: "set as \<noteq> {}" using ne by simp_all
  define lo' where "lo' = Min (set as)"
  define hi' where "hi' = Max (set as)"
  have lo_in: "lo' \<in> set as" unfolding lo'_def using fin nonempty by (rule Min_in)
  have hi_in: "hi' \<in> set as" unfolding hi'_def using fin nonempty by (rule Max_in)
  have lo_le: "lo' \<le> a" if "a \<in> set as" for a
    unfolding lo'_def using fin that by (rule Min_le)
  have hi_ge: "a \<le> hi'" if "a \<in> set as" for a
    unfolding hi'_def using fin that by (rule Max_ge)
  have between: "lo' \<le> ?q \<and> ?q \<le> hi'"
    using ne lo_le hi_ge by (rule mean_between)
  have l1: "lo \<le> lo'" unfolding lo_def using lo_in by (rule fold_min_le_elem)
  have h1: "hi' \<le> hi" unfolding hi_def using hi_in by (rule fold_max_ge_elem)
  have rl: "round_to_double lo' = Fin lo'" using rep lo_in by blast
  have rh: "round_to_double hi' = Fin hi'" using rep hi_in by blast
  have "dle (Fin lo') (round_to_double ?q)"
    using between rl by (intro round_to_double_ge) simp
  with l1 have low: "dle (Fin lo) (round_to_double ?q)" by (rule dle_Fin_trans)
  have "dle (round_to_double ?q) (Fin hi')"
    using between rh by (intro round_to_double_le) simp
  then have high: "dle (round_to_double ?q) (Fin hi)" using h1 by (rule dle_trans_Fin)
  have "mean_within ?r"
    using low high by (simp add: mean_within_def mean mn mx)
  with mean cnt show ?thesis by simp
qed

theorem rate_mean_within_witness:
  "[1, 3, 2 :: rat] \<noteq> []
   \<and> length [1, 3, 2 :: rat] < 2 ^ 53
   \<and> round_to_double 1 = Fin 1 \<and> round_to_double 3 = Fin 3 \<and> round_to_double 2 = Fin 2
   \<and> mMeanAcc (fold_samples [Fin 1, Fin 3, Fin 2] RateVals_init) = Fin (sum_list [1, 3, 2])
   \<and> mean_within (fold_samples [Fin 1, Fin 3, Fin 2] RateVals_init)
   \<and> mean (fold_samples [Fin 1, Fin 3, Fin 2] RateVals_init) = Some (Fin 2)
   \<and> mCount (fold_samples [Fin 1, Fin 3, Fin 2] RateVals_init) = Fin 3"
proof -
  have h1: "[1, 3, 2 :: rat] \<noteq> []" by simp
  have h2: "length [1, 3, 2 :: rat] < 2 ^ 53" by simp
  have r1: "round_to_double 1 = Fin 1" using round_to_double_int [of 1] by simp
  have r2: "round_to_double 2 = Fin 2" using round_to_double_int [of 2] by simp
  have r3: "round_to_double 3 = Fin 3" using round_to_double_int [of 3] by simp
  have r6: "round_to_double 6 = Fin 6" using round_to_double_int [of 6] by simp
  have r4: "round_to_double 4 = Fin 4" using round_to_double_int [of 4] by simp
  have h3: "\<forall>a\<in>set [1, 3, 2 :: rat]. round_to_double a = Fin a"
    using r1 r2 r3 by simp
  have h4: "mMeanAcc (fold_samples [Fin 1, Fin 3, Fin 2] RateVals_init) = Fin (sum_list [1, 3, 2])"
    by (simp add: mMeanAcc_fold_samples RateVals_init_def r1 r4 r6)
  from rate_mean_within [OF h1 h2 h3] h4
  have "mean_within (fold_samples [Fin 1, Fin 3, Fin 2] RateVals_init)
       \<and> mean (fold_samples [Fin 1, Fin 3, Fin 2] RateVals_init) = Some (round_to_double (6 / 3))
       \<and> mCount (fold_samples [Fin 1, Fin 3, Fin 2] RateVals_init) = Fin 3"
    by simp
  with h1 h2 r1 r3 h4 r2 show ?thesis by simp
qed

subsection \<open>C2: the initial record and the first sample\<close>

text \<open>
  Claim C2: a fresh record has its minimum at plus infinity, its maximum at minus infinity
  and its count at zero, so that the first sample \<open>v\<close> gives \<open>min = v\<close> and \<open>max = v\<close>.
  The initialiser of the maximum is \<^verbatim>\<open>std::numeric_limits<double>::min()\<close>, the smallest
  positive normal double \<open>2 ^ -1022\<close>, where the initialiser of the minimum is the largest
  finite double: a first sample of \<open>-1\<close> makes the count one and the minimum \<open>-1\<close>, and
  leaves the maximum at \<open>2 ^ -1022\<close>; so do a first sample of zero and of minus infinity.
\<close>

theorem RateVals_first_sample_max:
  "mMin RateVals_init = Fin numeric_limits_double_max
   \<and> mMax RateVals_init = Fin (1 / 2 ^ 1022)
   \<and> mCount RateVals_init = Fin 0
   \<and> mMin (fold_sample (Fin (- 1)) RateVals_init) = Fin (- 1)
   \<and> mCount (fold_sample (Fin (- 1)) RateVals_init) = Fin 1
   \<and> mMax (fold_sample (Fin (- 1)) RateVals_init) = Fin (1 / 2 ^ 1022)
   \<and> mMax (fold_sample (Fin (- 1)) RateVals_init) \<noteq> Fin (- 1)
   \<and> mMax (fold_sample (Fin 0) RateVals_init) = Fin (1 / 2 ^ 1022)
   \<and> mMax (fold_sample (Fin 0) RateVals_init) \<noteq> Fin 0
   \<and> mMax (fold_sample NInf RateVals_init) = Fin (1 / 2 ^ 1022)"
proof -
  have "round_to_double (of_int 1) = Fin (of_int 1)" by (rule round_to_double_int) simp_all
  then have one: "dadd (Fin 0) (Fin 1) = Fin 1" by simp
  have lt: "- 1 < numeric_limits_double_max" by (simp add: numeric_limits_double_max_def)
  show ?thesis
    using one lt
    by (simp add: RateVals_init_def fold_sample_def std_min_def std_max_def
        numeric_limits_double_min_def)
qed

subsection \<open>C3: pushes that leave the queues unchanged\<close>

text \<open>
  Claim C3, as stated: a push while the active flag is false leaves both queues
  unchanged. The two push functions do not read the active flag: with logging on, an
  inactive pipeline enqueues the sample.
\<close>

theorem push_inactive_counterexample:
  "\<not> mActive (fresh True None)
   \<and> mMetricsQueue (push ''m'' ''k'' (Fin 1) (fresh True None)) \<noteq> mMetricsQueue (fresh True None)
   \<and> mRateMetricsQueue (push_rate ''m'' ''k'' (Fin 1) (fresh True None))
        \<noteq> mRateMetricsQueue (fresh True None)"
  by (simp add: fresh_def push_def push_rate_def push_capacity_def)

text \<open>
  Claim C3, amended: with logging off and no monitoring backend, \<open>push\<close> and
  \<open>push_rate\<close> return the state unchanged, whatever the active flag is.
\<close>

theorem push_disabled_noop:
  assumes "\<not> mLogMetric s" and "mO2Monitoring s = None"
  shows "push pName pKey pVal s = s \<and> push_rate pName pKey pVal s = s
       \<and> push pName pKey pVal (set_active b s) = set_active b s
       \<and> push_rate pName pKey pVal (set_active b s) = set_active b s"
  using assms by (simp add: push_def push_rate_def set_active_def)

theorem push_disabled_noop_witness:
  "\<not> mLogMetric (fresh False None) \<and> mO2Monitoring (fresh False None) = None
   \<and> push ''m'' ''k'' (Fin 1) (fresh False None) = fresh False None
   \<and> push_rate ''m'' ''k'' (Fin 1) (fresh False None) = fresh False None"
proof -
  have h1: "\<not> mLogMetric (fresh False None)" by (simp add: fresh_def)
  have h2: "mO2Monitoring (fresh False None) = None" by (simp add: fresh_def)
  from push_disabled_noop [OF h1 h2, of "''m''" "''k''" "Fin 1" True] h1 h2
  show ?thesis by simp
qed

subsection \<open>C4: the window step stored by set_interval\<close>

text \<open>
  Claim C4: the stored step is \<open>max(250, 500 * floor(I / 2000)) * 1000\<close> microseconds for
  every interval \<open>I\<close>. The product by 1000 is computed in 32 bits before it is widened:
  at \<open>I = 17180000\<close> the step of the formula is 4295000000 and the stored step is 32704.
\<close>

theorem set_interval_step_wraps:
  "set_interval 17180000 s
     = Inr (s\<lparr>mMonitoringIntervalMs := 17180000, mMonitoringIntervalStepUs := 32704\<rparr>)
   \<and> max 250 (500 * (17180000 div 2000)) * 1000 = (4295000000 :: nat)
   \<and> (4295000000 :: nat) mod 2 ^ 32 = 32704"
  by (simp add: set_interval_eq)

subsection \<open>C5: the window rounder is the ceiling division\<close>

text \<open>
  Claim C5: with the step of the interval 2000 ms (500 ms), 1999 ms and 2000 ms round to
  2000 ms and 2001 ms rounds to 2500 ms; with the interval 500 ms the step is 250 ms and
  the instants round on the 250 ms grid; for an instant at or after the epoch and a positive
  step, \<open>roundTimeNow\<close> is \<open>ceilDiv(t, S) * S\<close>. The instant and the step are such that
  the sum of the instant and the step is a signed 64-bit count of nanoseconds, the tick of
  the clock.
\<close>

theorem roundTimeNow_ceilDiv:
  assumes "0 \<le> pNowUs" and "0 < sint (mMonitoringIntervalStepUs s)"
    and "pNowUs * 1000 + sint (mMonitoringIntervalStepUs s) * 1000 < 2 ^ 63"
  shows "roundTimeNow s pNowUs =
           Inr (ceilDiv pNowUs (sint (mMonitoringIntervalStepUs s))
                  * sint (mMonitoringIntervalStepUs s))
       \<and> (\<exists>s1. set_interval 2000 s = Inr s1 \<and> mMonitoringIntervalStepUs s1 = 500000
              \<and> roundTimeNow s1 1999000 = Inr 2000000
              \<and> roundTimeNow s1 2000000 = Inr 2000000
              \<and> roundTimeNow s1 2001000 = Inr 2500000)
       \<and> (\<exists>s2. set_interval 500 s = Inr s2 \<and> mMonitoringIntervalStepUs s2 = 250000
              \<and> roundTimeNow s2 1999000 = Inr 2000000
              \<and> roundTimeNow s2 2000000 = Inr 2000000
              \<and> roundTimeNow s2 2000001 = Inr 2250000
              \<and> (pNowUs * 1000 + 250000000 < 2 ^ 63 \<longrightarrow>
                   roundTimeNow s2 pNowUs = Inr (ceilDiv pNowUs 250000 * 250000)))"
proof -
  let ?S = "sint (mMonitoringIntervalStepUs s)"
  let ?s1 = "s\<lparr>mMonitoringIntervalMs := 2000, mMonitoringIntervalStepUs := 500000\<rparr>"
  let ?s2 = "s\<lparr>mMonitoringIntervalMs := 500, mMonitoringIntervalStepUs := 250000\<rparr>"
  have lo: "- (2 ^ 63) \<le> pNowUs * 1000" using assms(1) by simp
  have "0 \<le> pNowUs * 1000" using assms(1) by simp
  with assms(3) have st: "?S * 1000 < 2 ^ 63" by linarith
  have nn: "0 \<le> pNowUs + (?S - 1)" using assms by simp
  have "roundTimeNow s pNowUs = Inr (((pNowUs + (?S - 1)) sdiv ?S) * ?S)"
    using assms(2) lo st assms(3) by (rule roundTimeNow_eq)
  then have general: "roundTimeNow s pNowUs = Inr (ceilDiv pNowUs ?S * ?S)"
    using assms(2) nn by (simp add: ceilDiv_eq sdiv_nonneg)
  have ex1: "roundTimeNow ?s1 1999000 = Inr 2000000" "roundTimeNow ?s1 2000000 = Inr 2000000"
    "roundTimeNow ?s1 2001000 = Inr 2500000"
    by (simp_all add: roundTimeNow_def int64_def signed_divide_int_def)
  have ex2: "roundTimeNow ?s2 1999000 = Inr 2000000" "roundTimeNow ?s2 2000000 = Inr 2000000"
    "roundTimeNow ?s2 2000001 = Inr 2250000"
    by (simp_all add: roundTimeNow_def int64_def signed_divide_int_def)
  have grid: "roundTimeNow ?s2 pNowUs = Inr (ceilDiv pNowUs 250000 * 250000)"
    if r: "pNowUs * 1000 + 250000000 < 2 ^ 63"
  proof -
    have s2: "sint (mMonitoringIntervalStepUs ?s2) = 250000" by simp
    have p: "0 < sint (mMonitoringIntervalStepUs ?s2)" by simp
    have a: "- (2 ^ 63) \<le> pNowUs * 1000" by (rule lo)
    have b: "sint (mMonitoringIntervalStepUs ?s2) * 1000 < 2 ^ 63" by simp
    have c: "pNowUs * 1000 + sint (mMonitoringIntervalStepUs ?s2) * 1000 < 2 ^ 63"
      using r by simp
    have "roundTimeNow ?s2 pNowUs = Inr (((pNowUs + (250000 - 1)) sdiv 250000) * 250000)"
      using roundTimeNow_eq [OF p a b c] by (simp only: s2)
    moreover have "0 \<le> pNowUs + (250000 - 1)" using assms(1) by simp
    ultimately show ?thesis by (simp add: ceilDiv_eq sdiv_nonneg)
  qed
  from general ex1 ex2 grid show ?thesis
    by (simp add: set_interval_eq)
qed

theorem roundTimeNow_ceilDiv_witness:
  "(0::int) \<le> 2001000 \<and> 0 < sint (mMonitoringIntervalStepUs (fresh True None))
   \<and> 2001000 * 1000 + sint (mMonitoringIntervalStepUs (fresh True None)) * 1000 < 2 ^ 63
   \<and> roundTimeNow (fresh True None) 2001000 = Inr 2500000
   \<and> ceilDiv 2001000 500000 * 500000 = 2500000"
proof -
  have h1: "(0::int) \<le> 2001000" by simp
  have h2: "0 < sint (mMonitoringIntervalStepUs (fresh True None))" by (simp add: fresh_def)
  have h3: "2001000 * 1000 + sint (mMonitoringIntervalStepUs (fresh True None)) * 1000 < 2 ^ 63"
    by (simp add: fresh_def)
  have c: "ceilDiv 2001000 500000 = 5" by (simp add: ceilDiv_eq)
  have st: "sint (mMonitoringIntervalStepUs (fresh True None)) = 500000" by (simp add: fresh_def)
  from roundTimeNow_ceilDiv [OF h1 h2 h3] have
    "roundTimeNow (fresh True None) 2001000 =
       Inr (ceilDiv 2001000 (sint (mMonitoringIntervalStepUs (fresh True None)))
              * sint (mMonitoringIntervalStepUs (fresh True None)))"
    by (rule conjunct1)
  then have "roundTimeNow (fresh True None) 2001000 = Inr 2500000"
    by (simp only: st c) simp
  with h1 h2 h3 c show ?thesis by simp
qed

subsection \<open>C6: the rounded instant is never earlier\<close>

text \<open>
  Claim C6: for every instant and every positive window step, the instant returned by
  \<open>roundTimeNow\<close> is not before its argument: whenever the function returns, and it does
  return when the instant, the step, and the sum of the instant and the step are signed
  64-bit counts of nanoseconds, the tick of the clock.
\<close>

theorem roundTimeNow_not_earlier:
  assumes "0 < sint (mMonitoringIntervalStepUs s)"
  shows "(\<forall>r. roundTimeNow s pNowUs = Inr r \<longrightarrow> pNowUs \<le> r)
       \<and> (- (2 ^ 63) \<le> pNowUs * 1000
          \<and> pNowUs * 1000 + sint (mMonitoringIntervalStepUs s) * 1000 < 2 ^ 63
          \<and> sint (mMonitoringIntervalStepUs s) * 1000 < 2 ^ 63
          \<longrightarrow> (\<exists>r. roundTimeNow s pNowUs = Inr r \<and> pNowUs \<le> r))"
proof -
  let ?S = "sint (mMonitoringIntervalStepUs s)"
  have ge: "pNowUs \<le> ((pNowUs + (?S - 1)) sdiv ?S) * ?S"
    using assms by (rule round_up_ge)
  have part: "pNowUs \<le> r" if "roundTimeNow s pNowUs = Inr r" for r
    using roundTimeNow_Inr [OF assms that] ge by simp
  have tot: "\<exists>r. roundTimeNow s pNowUs = Inr r \<and> pNowUs \<le> r"
    if "- (2 ^ 63) \<le> pNowUs * 1000" and "pNowUs * 1000 + ?S * 1000 < 2 ^ 63"
      and "?S * 1000 < 2 ^ 63"
    using roundTimeNow_eq [OF assms that(1) that(3) that(2)] ge by simp
  from part tot show ?thesis by blast
qed

theorem roundTimeNow_not_earlier_witness:
  "0 < sint (mMonitoringIntervalStepUs (fresh True None))
   \<and> roundTimeNow (fresh True None) (- 500001) = Inr 0
   \<and> - 500001 \<le> (0 :: int)
   \<and> (\<exists>r. roundTimeNow (fresh True None) 1999000 = Inr r \<and> 1999000 \<le> r)"
proof -
  have h: "0 < sint (mMonitoringIntervalStepUs (fresh True None))" by (simp add: fresh_def)
  have e: "roundTimeNow (fresh True None) (- 500001) = Inr 0"
    by (simp add: roundTimeNow_def int64_def signed_divide_int_def fresh_def)
  have st: "sint (mMonitoringIntervalStepUs (fresh True None)) = 500000" by (simp add: fresh_def)
  from roundTimeNow_not_earlier [OF h, of "- 500001"] e
  have a: "- 500001 \<le> (0 :: int)" by blast
  from roundTimeNow_not_earlier [OF h, of 1999000]
  have b: "\<exists>r. roundTimeNow (fresh True None) 1999000 = Inr r \<and> 1999000 \<le> r"
    by (simp add: st)
  from h e a b show ?thesis by simp
qed

subsection \<open>C7: the interval set through the facade\<close>

text \<open>
  Claim C7, as stated: for every float above the epsilon threshold the interval is set to
  \<open>round(pInterval * 1000)\<close> milliseconds. The interval is an \<^verbatim>\<open>unsigned\<close>: for
  5000000 seconds the rounded product is 5000000000, which no \<^verbatim>\<open>unsigned\<close> holds, and
  the conversion is undefined.
\<close>

theorem DataDistMonitor_set_interval_counterexample:
  "\<not> dle (Fin 5000000) (Fin numeric_limits_float_epsilon)
   \<and> std_round (dmul (Fin 5000000) (Fin 1000)) = Fin 5000000000
   \<and> DataDistMonitor_set_interval (Fin 5000000) (Some (fresh True None))
        = Inl UndefinedConversion"
proof -
  have "round_to_double (of_int 5000000000) = Fin (of_int 5000000000)"
    by (rule round_to_double_int) simp_all
  then have m: "dmul (Fin 5000000) (Fin 1000) = Fin 5000000000" by simp
  have r: "std_round (Fin 5000000000) = Fin 5000000000"
    using std_round_int [of 5000000000] by simp
  have c: "unsigned_of_double (Fin 5000000000) = Inl UndefinedConversion"
    using unsigned_of_double_int [of 5000000000] by simp
  have e: "\<not> dle (Fin 5000000) (Fin numeric_limits_float_epsilon)"
    by (simp add: numeric_limits_float_epsilon_def)
  have p: "std_round (dmul (Fin 5000000) (Fin 1000)) = Fin 5000000000"
    by (simp only: m r)
  have u: "unsigned_of_double (std_round (dmul (Fin 5000000) (Fin 1000))) = Inl UndefinedConversion"
    by (simp only: p c)
  from e p u show ?thesis
    by (simp add: DataDistMonitor_set_interval_def del: dmul.simps)
qed

text \<open>
  Claim C7, amended: without a pipeline nothing happens; an interval at most the epsilon
  threshold only clears the active flag; an interval above it whose rounded product by
  1000 converts to the \<^verbatim>\<open>unsigned\<close> \<open>pIntMs\<close> sets the interval to \<open>pIntMs\<close> and the
  window step to the step of \<open>pIntMs\<close>, and leaves the active flag as it is.
\<close>

theorem DataDistMonitor_set_interval_cases:
  "DataDistMonitor_set_interval pInterval None = Inr None
   \<and> (dle pInterval (Fin numeric_limits_float_epsilon) \<longrightarrow>
        DataDistMonitor_set_interval pInterval (Some m) = Inr (Some (m\<lparr>mActive := False\<rparr>)))
   \<and> (\<not> dle pInterval (Fin numeric_limits_float_epsilon) \<longrightarrow>
        unsigned_of_double (std_round (dmul pInterval (Fin 1000))) = Inr pIntMs \<longrightarrow>
        DataDistMonitor_set_interval pInterval (Some m)
          = Inr (Some (m\<lparr>mMonitoringIntervalMs := pIntMs,
                           mMonitoringIntervalStepUs :=
                             ucast (max 250 (500 * (pIntMs div 2000)) * 1000)\<rparr>)))"
  by (simp add: DataDistMonitor_set_interval_def set_active_def set_interval_eq)

theorem DataDistMonitor_set_interval_cases_witness:
  "dle (Fin 0) (Fin numeric_limits_float_epsilon)
   \<and> DataDistMonitor_set_interval (Fin 0) (Some (fresh True None))
        = Inr (Some ((fresh True None)\<lparr>mActive := False\<rparr>))
   \<and> \<not> dle (Fin 2) (Fin numeric_limits_float_epsilon)
   \<and> unsigned_of_double (std_round (dmul (Fin 2) (Fin 1000))) = Inr 2000
   \<and> DataDistMonitor_set_interval (Fin 2) (Some (fresh True None))
        = Inr (Some ((fresh True None)\<lparr>mMonitoringIntervalMs := 2000,
                                          mMonitoringIntervalStepUs := 500000\<rparr>))"
proof -
  have h0: "dle (Fin 0) (Fin numeric_limits_float_epsilon)"
    by (simp add: numeric_limits_float_epsilon_def)
  have h1: "\<not> dle (Fin 2) (Fin numeric_limits_float_epsilon)"
    by (simp add: numeric_limits_float_epsilon_def)
  have "round_to_double (of_int 2000) = Fin (of_int 2000)"
    by (rule round_to_double_int) simp_all
  then have m: "dmul (Fin 2) (Fin 1000) = Fin 2000" by simp
  have r: "std_round (Fin 2000) = Fin 2000"
    using std_round_int [of 2000] by simp
  have c: "unsigned_of_double (Fin 2000) = Inr 2000"
    using unsigned_of_double_int [of 2000] by simp
  have h2: "unsigned_of_double (std_round (dmul (Fin 2) (Fin 1000))) = Inr 2000"
    by (simp only: m r c)
  from DataDistMonitor_set_interval_cases [of "Fin 0" "fresh True None"]
    DataDistMonitor_set_interval_cases [of "Fin 2" "fresh True None" 2000] h0 h1 h2
  show ?thesis by simp
qed

subsection \<open>C8: folding in any order\<close>




subsection \<open>C9: the queues never exceed 4096 elements\<close>

text \<open>
  Claim C9: \<open>push\<close> and \<open>push_rate\<close> enqueue with the capacity 4096. After a burst of
  any number of calls with no drain in between, on a pipeline that is logging or has a
  backend, each queue holds its former elements followed by the samples pushed to it, in
  order, cut after the first 4096 elements: the samples in excess are dropped, the queues
  never hold more than 4096 elements, and no call reports an error. On a pipeline that is
  not logging and has no backend the burst changes nothing.
\<close>

theorem queue_capacity_bound:
  assumes "length (mMetricsQueue s) \<le> 4096" and "length (mRateMetricsQueue s) \<le> 4096"
  shows "(mLogMetric s \<or> mO2Monitoring s \<noteq> None \<longrightarrow>
            mMetricsQueue (burst cs s) = take 4096 (mMetricsQueue s @ pushed cs)
          \<and> mRateMetricsQueue (burst cs s) = take 4096 (mRateMetricsQueue s @ pushed_rate cs))
       \<and> (\<not> (mLogMetric s \<or> mO2Monitoring s \<noteq> None) \<longrightarrow> burst cs s = s)
       \<and> length (mMetricsQueue (burst cs s)) \<le> 4096
       \<and> length (mRateMetricsQueue (burst cs s)) \<le> 4096"
proof -
  have en: "mMetricsQueue (burst cs s) = take 4096 (mMetricsQueue s @ pushed cs)
          \<and> mRateMetricsQueue (burst cs s) = take 4096 (mRateMetricsQueue s @ pushed_rate cs)"
    if "mLogMetric s \<or> mO2Monitoring s \<noteq> None"
    using burst_enabled [OF that assms, of cs] by simp
  have dis: "burst cs s = s" if "\<not> (mLogMetric s \<or> mO2Monitoring s \<noteq> None)"
    using that by (intro burst_disabled) simp_all
  from burst_bound [OF assms, of cs] en dis show ?thesis by blast
qed

theorem queue_capacity_bound_witness:
  "length (mMetricsQueue (fresh True None)) \<le> 4096
   \<and> length (mRateMetricsQueue (fresh True None)) \<le> 4096
   \<and> mMetricsQueue
        (burst [Push ''m'' ''a'' (Fin 1), PushRate ''r'' ''b'' (Fin 2), Push ''m'' ''c'' (Fin 3)]
           (fresh True None))
        = [(''m'', ''a'', Fin 1), (''m'', ''c'', Fin 3)]
   \<and> mRateMetricsQueue
        (burst [Push ''m'' ''a'' (Fin 1), PushRate ''r'' ''b'' (Fin 2), Push ''m'' ''c'' (Fin 3)]
           (fresh True None))
        = [(''r'', ''b'', Fin 2)]
   \<and> mMetricsQueue (burst (replicate 5000 (Push ''m'' ''k'' (Fin 1))) (fresh True None))
        = replicate 4096 (''m'', ''k'', Fin 1)
   \<and> burst (replicate 5000 (Push ''m'' ''k'' (Fin 1))) (fresh False None) = fresh False None"
proof -
  let ?L = "[Push ''m'' ''a'' (Fin 1), PushRate ''r'' ''b'' (Fin 2), Push ''m'' ''c'' (Fin 3)]"
  let ?R = "replicate 5000 (Push ''m'' ''k'' (Fin 1))"
  have h1: "length (mMetricsQueue (fresh b None)) \<le> 4096" for b by (simp add: fresh_def)
  have h2: "length (mRateMetricsQueue (fresh b None)) \<le> 4096" for b by (simp add: fresh_def)
  have en: "mLogMetric (fresh True None) \<or> mO2Monitoring (fresh True None) \<noteq> None"
    by (simp add: fresh_def)
  have dis: "\<not> (mLogMetric (fresh False None) \<or> mO2Monitoring (fresh False None) \<noteq> None)"
    by (simp add: fresh_def)
  have q: "mMetricsQueue (fresh True None) = []" by (simp add: fresh_def)
  have qr: "mRateMetricsQueue (fresh True None) = []" by (simp add: fresh_def)
  have a: "mMetricsQueue (burst ?L (fresh True None))
             = take 4096 (mMetricsQueue (fresh True None) @ pushed ?L)"
    and b: "mRateMetricsQueue (burst ?L (fresh True None))
             = take 4096 (mRateMetricsQueue (fresh True None) @ pushed_rate ?L)"
    using queue_capacity_bound [OF h1 h2, of True ?L] en by blast+
  have c: "mMetricsQueue (burst ?R (fresh True None))
             = take 4096 (mMetricsQueue (fresh True None) @ pushed ?R)"
    using queue_capacity_bound [OF h1 h2, of True ?R] en by blast
  have d: "burst ?R (fresh False None) = fresh False None"
    using queue_capacity_bound [OF h1 h2, of False ?R] dis by blast
  have a': "take 4096 (mMetricsQueue (fresh True None) @ pushed ?L)
              = [(''m'', ''a'', Fin 1), (''m'', ''c'', Fin 3)]"
    by (simp add: q)
  have b': "take 4096 (mRateMetricsQueue (fresh True None) @ pushed_rate ?L)
              = [(''r'', ''b'', Fin 2)]"
    by (simp add: qr)
  have c': "take 4096 (mMetricsQueue (fresh True None) @ pushed ?R)
              = replicate 4096 (''m'', ''k'', Fin 1)"
    by (simp add: q pushed_replicate)
  from h1 [of True] h2 [of True] a [unfolded a'] b [unfolded b'] c [unfolded c'] d
  show ?thesis by (intro conjI)
qed

subsection \<open>C10: enabling the pipeline\<close>

text \<open>
  Claim C10: \<open>enable_datadist\<close> forwards \<open>max(pRunNum, 1)\<close> to \<open>set_run_number\<close>,
  which is 1 for the run number 0 and never below 1, forwards the partition identifier
  to \<open>set_partition_id\<close>, and sets the active flag.
\<close>

theorem enable_datadist_run_number:
  "enable_datadist pRunNum pPartId None = None
   \<and> (\<exists>m'. enable_datadist pRunNum pPartId (Some m) = Some m'
        \<and> m' = set_active True (set_partition_id pPartId (set_run_number (max pRunNum 1) m))
        \<and> mActive m'
        \<and> mO2Monitoring m' =
            map_option
              (\<lambda>calls. calls @ [SetRunNumber (max pRunNum 1), AddGlobalTag ''partition'' pPartId])
              (mO2Monitoring m))
   \<and> max pRunNum 1 = (if pRunNum = 0 then 1 else pRunNum)
   \<and> 1 \<le> max pRunNum 1"
  by (cases "mO2Monitoring m")
    (simp_all add: enable_datadist_def set_active_def set_partition_id_def set_run_number_def
      max_one_word one_le_word)

theorem enable_datadist_run_number_witness:
  "\<exists>m'. enable_datadist 0 ''p'' (Some (fresh False (Some []))) = Some m'
        \<and> mActive m'
        \<and> mO2Monitoring m' = Some [SetRunNumber 1, AddGlobalTag ''partition'' ''p'']"
  using enable_datadist_run_number [of 0 "''p''" "fresh False (Some [])"]
  by (auto simp: fresh_def)

end
